theory Spec2Isabelle
  imports Main
begin

section \<open>Data model\<close>

text \<open>
  Vertices are Python strings. The adjacency mapping is a \<^verbatim>\<open>defaultdict(list)\<close>; a
  Python dict keeps its keys in insertion order and several operations depend on that
  order, so the mapping is an association list whose order is the insertion order.
\<close>

type_synonym vertex = string

type_synonym adjacency = "(vertex \<times> vertex list) list"

record graph =
  adjacency_list :: adjacency
  directed :: bool

datatype py_error = RuntimeError | RecursionError

subsection \<open>Dictionary primitives\<close>

text \<open>\<^verbatim>\<open>list(d.keys())\<close> and \<^verbatim>\<open>k in d\<close>.\<close>

definition dict_keys :: "adjacency \<Rightarrow> vertex list" where
  "dict_keys d = map fst d"

definition dict_contains :: "adjacency \<Rightarrow> vertex \<Rightarrow> bool" where
  "dict_contains d k = (k \<in> set (dict_keys d))"

text \<open>
  \<^verbatim>\<open>d[k]\<close> on a \<^verbatim>\<open>defaultdict(list)\<close>: a missing key is inserted (at the end) with a
  fresh empty list, which is returned. The dictionary after the access is returned too.
\<close>

definition dict_getitem :: "adjacency \<Rightarrow> vertex \<Rightarrow> vertex list \<times> adjacency" where
  "dict_getitem d k =
     (case map_of d k of
        Some vs \<Rightarrow> (vs, d)
      | None \<Rightarrow> ([], d @ [(k, [])]))"

text \<open>\<^verbatim>\<open>d[k] = v\<close>: an existing key keeps its position, a new key goes to the end.\<close>

fun dict_setitem :: "adjacency \<Rightarrow> vertex \<Rightarrow> vertex list \<Rightarrow> adjacency" where
  "dict_setitem [] k v = [(k, v)]"
| "dict_setitem ((k', v') # d) k v =
     (if k' = k then (k, v) # d else (k', v') # dict_setitem d k v)"

text \<open>\<^verbatim>\<open>d.get(k, [])\<close>: no insertion.\<close>

definition dict_get :: "adjacency \<Rightarrow> vertex \<Rightarrow> vertex list" where
  "dict_get d k = (case map_of d k of Some vs \<Rightarrow> vs | None \<Rightarrow> [])"

text \<open>\<^verbatim>\<open>d[k].append(x)\<close> on the default dictionary: the list stored under k grows in place.\<close>

definition dict_append :: "adjacency \<Rightarrow> vertex \<Rightarrow> vertex \<Rightarrow> adjacency" where
  "dict_append d k x = (case dict_getitem d k of (vs, d') \<Rightarrow> dict_setitem d' k (vs @ [x]))"

text \<open>\<^verbatim>\<open>if k not in d: d[k] = []\<close>, the guard of \<^verbatim>\<open>add_vertex\<close> and \<^verbatim>\<open>add_edge\<close>.\<close>

definition ensure_key :: "adjacency \<Rightarrow> vertex \<Rightarrow> adjacency" where
  "ensure_key d k = (if \<not> dict_contains d k then dict_setitem d k [] else d)"

subsection \<open>The invariant of the data model\<close>

text \<open>Every vertex that occurs in a neighbour list is a key of the mapping.\<close>

definition closed :: "adjacency \<Rightarrow> bool" where
  "closed d = (\<forall>e \<in> set d. \<forall>n \<in> set (snd e). dict_contains d n)"

section \<open>Construction and mutation\<close>

definition Graph :: "bool \<Rightarrow> graph" where
  "Graph dir = \<lparr>adjacency_list = [], directed = dir\<rparr>"

definition add_edge :: "graph \<Rightarrow> vertex \<Rightarrow> vertex \<Rightarrow> graph" where
  "add_edge g start end =
     (let d1 = ensure_key (adjacency_list g) start;
          d2 = ensure_key d1 end;
          d3 = dict_append d2 start end;
          d4 = (if \<not> directed g then dict_append d3 end start else d3)
      in g\<lparr>adjacency_list := d4\<rparr>)"

definition add_vertex :: "graph \<Rightarrow> vertex \<Rightarrow> graph" where
  "add_vertex g v = g\<lparr>adjacency_list := ensure_key (adjacency_list g) v\<rparr>"

section \<open>Queries\<close>

text \<open>
  Every method below is modelled as a function from the graph to its result and the
  graph after the call, because indexing the default dictionary can insert a key.
\<close>

definition get_vertices :: "graph \<Rightarrow> vertex list \<times> graph" where
  "get_vertices g = (dict_keys (adjacency_list g), g)"

definition get_neighbors :: "graph \<Rightarrow> vertex \<Rightarrow> vertex list \<times> graph" where
  "get_neighbors g v = (dict_get (adjacency_list g) v, g)"

section \<open>Breadth-first search\<close>

text \<open>The vertices a dictionary mentions, as keys or as neighbours.\<close>

definition vertices_of :: "adjacency \<Rightarrow> vertex set" where
  "vertices_of d = set (map fst d) \<union> (\<Union>e \<in> set d. set (snd e))"

text \<open>
  The \<^verbatim>\<open>while queue\<close> loop of \<^verbatim>\<open>breadth_first_search\<close> (and, with the same body, of
  \<^verbatim>\<open>connected_components_bfs\<close>). The head of the list is the left end of the deque.
\<close>

function bfs_loop ::
  "adjacency \<Rightarrow> vertex list \<Rightarrow> vertex set \<Rightarrow> vertex list
     \<Rightarrow> vertex list \<times> vertex set \<times> adjacency" where
  "bfs_loop d [] visited result = (result, visited, d)"
| "bfs_loop d (current # queue) visited result =
     (if current \<notin> visited then
        (case dict_getitem d current of
           (neighbors, d') \<Rightarrow>
             bfs_loop d'
               (queue @ filter (\<lambda>neighbor. neighbor \<notin> insert current visited) neighbors)
               (insert current visited) (result @ [current]))
      else bfs_loop d queue visited result)"
  by pat_completeness auto

lemma finite_vertices_of: "finite (vertices_of d)"
  by (simp add: vertices_of_def)

lemma getitem_values:
  "dict_getitem d k = (vs, d') \<Longrightarrow> set vs \<subseteq> vertices_of d"
  by (auto simp: dict_getitem_def vertices_of_def split: option.splits
      dest!: map_of_SomeD)

lemma getitem_vertices:
  "dict_getitem d k = (vs, d') \<Longrightarrow> vertices_of d' \<subseteq> insert k (vertices_of d)"
  by (fastforce simp: dict_getitem_def vertices_of_def split: option.splits)

termination bfs_loop
proof (relation "inv_image (finite_psubset <*lex*> less_than)
         (\<lambda>(d, queue, visited, result). ((vertices_of d \<union> set queue) - visited, length queue))",
       goal_cases)
  case 1
  show ?case by auto
next
  case (2 d current queue visited result neighbors d')
  have "dict_getitem d current = (neighbors, d')" using 2 by simp
  from getitem_values[OF this] getitem_vertices[OF this] 2(1)
  have "(vertices_of d' \<union> set (queue @ filter (\<lambda>n. n \<notin> insert current visited) neighbors))
           - insert current visited
        \<subset> (vertices_of d \<union> set (current # queue)) - visited"
    by auto
  then show ?case by (simp add: finite_psubset_def finite_vertices_of)
next
  case (3 d current queue visited result)
  then show ?case by (auto simp: finite_psubset_def finite_vertices_of)
qed

definition breadth_first_search :: "graph \<Rightarrow> vertex \<Rightarrow> vertex list \<times> graph" where
  "breadth_first_search g start =
     (if \<not> dict_contains (adjacency_list g) start then ([], g)
      else case bfs_loop (adjacency_list g) [start] {} [] of
             (result, visited, d') \<Rightarrow> (result, g\<lparr>adjacency_list := d'\<rparr>))"

section \<open>Depth-first search, iterative\<close>

text \<open>
  The \<^verbatim>\<open>while stack\<close> loop of \<^verbatim>\<open>depth_first_search\<close>. The stack is the Python list:
  \<^verbatim>\<open>pop()\<close> takes its last element and \<^verbatim>\<open>append\<close> adds at the end.
\<close>

function dfs_loop ::
  "adjacency \<Rightarrow> vertex list \<Rightarrow> vertex set \<Rightarrow> vertex list \<Rightarrow> vertex list \<times> adjacency" where
  "dfs_loop d stack visited result =
     (if stack = [] then (result, d)
      else if last stack \<notin> visited then
        (case dict_getitem d (last stack) of
           (neighbors, d') \<Rightarrow>
             dfs_loop d'
               (butlast stack @
                  filter (\<lambda>neighbor. neighbor \<notin> insert (last stack) visited) (rev neighbors))
               (insert (last stack) visited) (result @ [last stack]))
      else dfs_loop d (butlast stack) visited result)"
  by pat_completeness auto

termination dfs_loop
proof (relation "inv_image (finite_psubset <*lex*> less_than)
         (\<lambda>(d, stack, visited, result). ((vertices_of d \<union> set stack) - visited, length stack))",
       goal_cases)
  case 1
  show ?case by auto
next
  case (2 d stack visited result neighbors d')
  have g: "dict_getitem d (last stack) = (neighbors, d')" using 2 by simp
  have l: "last stack \<in> set stack" using 2(1) by simp
  have b: "set (butlast stack) \<subseteq> set stack" by (auto dest: in_set_butlastD)
  from getitem_values[OF g] getitem_vertices[OF g] 2(2) l b
  have "(vertices_of d' \<union>
           set (butlast stack @ filter (\<lambda>n. n \<notin> insert (last stack) visited) (rev neighbors)))
           - insert (last stack) visited
        \<subset> (vertices_of d \<union> set stack) - visited"
    by auto
  then show ?case by (simp add: finite_psubset_def finite_vertices_of)
next
  case (3 d stack visited result)
  have b: "set (butlast stack) \<subseteq> set stack" by (auto dest: in_set_butlastD)
  have "(vertices_of d \<union> set (butlast stack)) - visited \<subseteq> (vertices_of d \<union> set stack) - visited"
    using b by auto
  then show ?case using 3
    by (auto simp: finite_psubset_def finite_vertices_of psubset_eq)
qed

declare dfs_loop.simps [simp del]

definition depth_first_search :: "graph \<Rightarrow> vertex \<Rightarrow> vertex list \<times> graph" where
  "depth_first_search g start =
     (if \<not> dict_contains (adjacency_list g) start then ([], g)
      else case dfs_loop (adjacency_list g) [start] {} [] of
             (result, d') \<Rightarrow> (result, g\<lparr>adjacency_list := d'\<rparr>))"

section \<open>Depth-first search, recursive\<close>

text \<open>
  \<^verbatim>\<open>dfs_recursive\<close> shares one mutable \<^verbatim>\<open>visited\<close> set over the whole call tree, so the
  model returns the set together with the result. \<open>dfs_rec\<close> is the body of the method,
  run in a frame that exists, and \<open>dfs_rec_neighbors\<close> is its
  \<^verbatim>\<open>for neighbor in self.adjacency_list[start]\<close> loop. Each recursive call needs a new
  interpreter frame: \<open>limit\<close> is the number of nested calls the interpreter still allows,
  and a call beyond it raises RecursionError. No frame catches it, so it ends the whole
  search. The indexed key is known to be present at that point, so the dictionary is not
  changed by the access.
\<close>

fun dfs_rec ::
    "adjacency \<Rightarrow> nat \<Rightarrow> vertex \<Rightarrow> vertex set \<Rightarrow> (py_error + vertex list) \<times> vertex set"
  and dfs_rec_neighbors ::
    "adjacency \<Rightarrow> nat \<Rightarrow> vertex list \<Rightarrow> vertex set \<Rightarrow> vertex list
       \<Rightarrow> (py_error + vertex list) \<times> vertex set" where
  "dfs_rec d limit start visited =
     (if \<not> dict_contains d start \<or> start \<in> visited then (Inr [], visited)
      else dfs_rec_neighbors d limit (fst (dict_getitem d start)) (insert start visited) [start])"
| "dfs_rec_neighbors d limit [] visited result = (Inr result, visited)"
| "dfs_rec_neighbors d limit (neighbor # rest) visited result =
     (if neighbor \<notin> visited then
        (case limit of
           0 \<Rightarrow> (Inl RecursionError, visited)
         | Suc limit' \<Rightarrow>
             (case dfs_rec d limit' neighbor visited of
                (Inl e, visited') \<Rightarrow> (Inl e, visited')
              | (Inr sub, visited') \<Rightarrow> dfs_rec_neighbors d limit rest visited' (result @ sub)))
      else dfs_rec_neighbors d limit rest visited result)"

definition dfs_recursive ::
  "graph \<Rightarrow> vertex \<Rightarrow> vertex set option \<Rightarrow> nat \<Rightarrow> (py_error + vertex list) \<times> graph" where
  "dfs_recursive g start visited limit =
     (fst (dfs_rec (adjacency_list g) limit start (case visited of None \<Rightarrow> {} | Some s \<Rightarrow> s)), g)"

section \<open>Path finding\<close>

text \<open>
  The \<^verbatim>\<open>for neighbor in self.adjacency_list[current]\<close> loop of both path searches:
  it returns from the method (\<open>Inl\<close>) at the first neighbour equal to the target, and
  otherwise appends the unvisited neighbours, each with its extended path, to the end of
  the work list (\<open>Inr\<close>). Both the deque and the stack are appended to at the end.
\<close>

fun scan_neighbors ::
  "vertex \<Rightarrow> vertex set \<Rightarrow> vertex list \<Rightarrow> vertex list \<Rightarrow> (vertex \<times> vertex list) list
     \<Rightarrow> vertex list + (vertex \<times> vertex list) list" where
  "scan_neighbors target visited path [] work = Inr work"
| "scan_neighbors target visited path (neighbor # rest) work =
     (if neighbor = target then Inl (path @ [neighbor])
      else if neighbor \<notin> visited
        then scan_neighbors target visited path rest (work @ [(neighbor, path @ [neighbor])])
        else scan_neighbors target visited path rest work)"

lemma scan_neighbors_Inr:
  "scan_neighbors target visited path ns work = Inr work' \<Longrightarrow>
     work' = work @ map (\<lambda>n. (n, path @ [n])) (filter (\<lambda>n. n \<notin> visited) ns) \<and> target \<notin> set ns"
proof (induction ns arbitrary: work)
  case Nil
  then show ?case by simp
next
  case (Cons a ns)
  show ?case
  proof (cases "a \<in> visited")
    case True
    then show ?thesis using Cons.prems Cons.IH[of work] by (simp split: if_splits)
  next
    case False
    then show ?thesis using Cons.prems Cons.IH[of "work @ [(a, path @ [a])]"]
      by (simp split: if_splits)
  qed
qed

lemma scan_neighbors_Inl:
  "scan_neighbors target visited path ns work = Inl found \<Longrightarrow>
     found = path @ [target] \<and> target \<in> set ns"
  by (induction ns arbitrary: work) (auto split: if_splits)

text \<open>The \<^verbatim>\<open>while queue\<close> loop of \<^verbatim>\<open>find_path_bfs\<close>; \<^verbatim>\<open>popleft\<close> takes the head.\<close>

function find_path_bfs_loop ::
  "adjacency \<Rightarrow> vertex \<Rightarrow> (vertex \<times> vertex list) list \<Rightarrow> vertex set
     \<Rightarrow> vertex list option \<times> adjacency" where
  "find_path_bfs_loop d target [] visited = (None, d)"
| "find_path_bfs_loop d target ((current, path) # queue) visited =
     (if current \<in> visited then find_path_bfs_loop d target queue visited
      else
        (case dict_getitem d current of
           (neighbors, d') \<Rightarrow>
             (case scan_neighbors target (insert current visited) path neighbors queue of
                Inl found \<Rightarrow> (Some found, d')
              | Inr queue' \<Rightarrow> find_path_bfs_loop d' target queue' (insert current visited))))"
  by pat_completeness auto

termination find_path_bfs_loop
proof (relation "inv_image (finite_psubset <*lex*> less_than)
         (\<lambda>(d, target, queue, visited).
            ((vertices_of d \<union> fst ` set queue) - visited, length queue))",
       goal_cases)
  case 1
  show ?case by auto
next
  case (2 d target current path queue visited)
  then show ?case by (auto simp: finite_psubset_def finite_vertices_of)
next
  case (3 d target current path queue visited neighbors d' queue')
  have g: "dict_getitem d current = (neighbors, d')" using 3 by simp
  have s: "scan_neighbors target (insert current visited) path neighbors queue = Inr queue'"
    using 3 by simp
  have q: "fst ` set queue' \<subseteq> fst ` set queue \<union> set neighbors"
    using scan_neighbors_Inr[OF s] by auto
  from getitem_values[OF g] getitem_vertices[OF g] 3(1) q
  have "(vertices_of d' \<union> fst ` set queue') - insert current visited
        \<subset> (vertices_of d \<union> fst ` set ((current, path) # queue)) - visited"
    by auto
  then show ?case by (simp add: finite_psubset_def finite_vertices_of)
qed

definition find_path_bfs :: "graph \<Rightarrow> vertex \<Rightarrow> vertex \<Rightarrow> vertex list option \<times> graph" where
  "find_path_bfs g start target =
     (if \<not> dict_contains (adjacency_list g) start \<or> \<not> dict_contains (adjacency_list g) target
      then (None, g)
      else if start = target then (Some [start], g)
      else case find_path_bfs_loop (adjacency_list g) target [(start, [start])] {} of
             (found, d') \<Rightarrow> (found, g\<lparr>adjacency_list := d'\<rparr>))"

text \<open>The \<^verbatim>\<open>while stack\<close> loop of \<^verbatim>\<open>find_path_dfs\<close>; \<^verbatim>\<open>pop()\<close> takes the last element.\<close>

function find_path_dfs_loop ::
  "adjacency \<Rightarrow> vertex \<Rightarrow> (vertex \<times> vertex list) list \<Rightarrow> vertex set
     \<Rightarrow> vertex list option \<times> adjacency" where
  "find_path_dfs_loop d target stack visited =
     (if stack = [] then (None, d)
      else if fst (last stack) \<in> visited then find_path_dfs_loop d target (butlast stack) visited
      else
        (case dict_getitem d (fst (last stack)) of
           (neighbors, d') \<Rightarrow>
             (case scan_neighbors target (insert (fst (last stack)) visited) (snd (last stack))
                     neighbors (butlast stack) of
                Inl found \<Rightarrow> (Some found, d')
              | Inr stack' \<Rightarrow>
                  find_path_dfs_loop d' target stack' (insert (fst (last stack)) visited))))"
  by pat_completeness auto

termination find_path_dfs_loop
proof (relation "inv_image (finite_psubset <*lex*> less_than)
         (\<lambda>(d, target, stack, visited).
            ((vertices_of d \<union> fst ` set stack) - visited, length stack))",
       goal_cases)
  case 1
  show ?case by auto
next
  case (2 d target stack visited)
  have b: "set (butlast stack) \<subseteq> set stack" by (auto dest: in_set_butlastD)
  have "(vertices_of d \<union> fst ` set (butlast stack)) - visited
          \<subseteq> (vertices_of d \<union> fst ` set stack) - visited"
    using b by auto
  then show ?case using 2
    by (auto simp: finite_psubset_def finite_vertices_of psubset_eq)
next
  case (3 d target stack visited neighbors d' stack')
  have g: "dict_getitem d (fst (last stack)) = (neighbors, d')" using 3 by simp
  have l: "fst (last stack) \<in> fst ` set stack" using 3(1) by simp
  have b: "set (butlast stack) \<subseteq> set stack" by (auto dest: in_set_butlastD)
  have s: "scan_neighbors target (insert (fst (last stack)) visited) (snd (last stack))
              neighbors (butlast stack) = Inr stack'"
    using 3 by simp
  have "fst ` set stack' \<subseteq> fst ` set (butlast stack) \<union> set neighbors"
    using scan_neighbors_Inr[OF s] by auto
  then have q: "fst ` set stack' \<subseteq> fst ` set stack \<union> set neighbors"
    using b by blast
  from getitem_values[OF g] getitem_vertices[OF g] 3(2) q l
  have "(vertices_of d' \<union> fst ` set stack') - insert (fst (last stack)) visited
        \<subset> (vertices_of d \<union> fst ` set stack) - visited"
    by auto
  then show ?case by (simp add: finite_psubset_def finite_vertices_of)
qed

declare find_path_dfs_loop.simps [simp del]

definition find_path_dfs :: "graph \<Rightarrow> vertex \<Rightarrow> vertex \<Rightarrow> vertex list option \<times> graph" where
  "find_path_dfs g start target =
     (if \<not> dict_contains (adjacency_list g) start \<or> \<not> dict_contains (adjacency_list g) target
      then (None, g)
      else if start = target then (Some [start], g)
      else case find_path_dfs_loop (adjacency_list g) target [(start, [start])] {} of
             (found, d') \<Rightarrow> (found, g\<lparr>adjacency_list := d'\<rparr>))"

section \<open>Connected components and connectivity\<close>

text \<open>
  The \<^verbatim>\<open>for vertex in self.adjacency_list\<close> loop of \<^verbatim>\<open>connected_components_bfs\<close>.
  A Python dictionary iterator remembers the size of the dictionary when it was created
  and, each time the next key is asked for (also after the last key), raises RuntimeError
  if the size is no longer the same. \<open>size0\<close> is that size and \<open>ks\<close> the keys not yet
  delivered. The \<^verbatim>\<open>while queue\<close> loop inside is \<open>bfs_loop\<close> with the shared visited set.
\<close>

fun components_loop ::
  "adjacency \<Rightarrow> nat \<Rightarrow> vertex list \<Rightarrow> vertex set \<Rightarrow> vertex list list
     \<Rightarrow> (py_error + vertex list list) \<times> adjacency" where
  "components_loop d size0 [] visited components =
     (if length d \<noteq> size0 then (Inl RuntimeError, d) else (Inr components, d))"
| "components_loop d size0 (vertex # ks) visited components =
     (if length d \<noteq> size0 then (Inl RuntimeError, d)
      else if vertex \<notin> visited then
        (case bfs_loop d [vertex] visited [] of
           (component, visited', d') \<Rightarrow>
             components_loop d' size0 ks visited'
               (if component \<noteq> [] then components @ [component] else components))
      else components_loop d size0 ks visited components)"

definition connected_components_bfs ::
  "graph \<Rightarrow> (py_error + vertex list list) \<times> graph" where
  "connected_components_bfs g =
     (case components_loop (adjacency_list g) (length (adjacency_list g))
             (dict_keys (adjacency_list g)) {} [] of
        (r, d') \<Rightarrow> (r, g\<lparr>adjacency_list := d'\<rparr>))"

text \<open>
  \<^verbatim>\<open>next(iter(self.adjacency_list))\<close> is the first key; both lengths are taken after the
  search has run.
\<close>

definition is_connected :: "graph \<Rightarrow> bool \<times> graph" where
  "is_connected g =
     (if adjacency_list g = [] then (True, g)
      else case breadth_first_search g (fst (hd (adjacency_list g))) of
             (order, g') \<Rightarrow> (card (set order) = length (adjacency_list g'), g'))"

section \<open>Notions used to state the properties\<close>

text \<open>The edges recorded in the mapping and the vertices reachable along them.\<close>

definition edges :: "adjacency \<Rightarrow> (vertex \<times> vertex) set" where
  "edges d = {(u, v). v \<in> set (dict_get d u)}"


text \<open>A non-empty vertex sequence in which each vertex is a recorded neighbour of the one before.\<close>

fun is_walk :: "adjacency \<Rightarrow> vertex list \<Rightarrow> bool" where
  "is_walk d [] = False"
| "is_walk d [v] = True"
| "is_walk d (u # v # rest) = (v \<in> set (dict_get d u) \<and> is_walk d (v # rest))"

definition path_from_to :: "adjacency \<Rightarrow> vertex \<Rightarrow> vertex \<Rightarrow> vertex list \<Rightarrow> bool" where
  "path_from_to d s t p = (p \<noteq> [] \<and> hd p = s \<and> last p = t \<and> is_walk d p)"

subsection \<open>The recursive search without the recursion limit\<close>

text \<open>
  The same recursion as \<open>dfs_rec\<close> with no bound on its depth. It is not the model of
  the method; it serves to state what \<open>dfs_rec\<close> returns when the limit is not reached.
\<close>

function dfs_visit :: "adjacency \<Rightarrow> vertex \<Rightarrow> vertex set \<Rightarrow> vertex list \<times> vertex set"
  and dfs_visit_neighbors ::
    "adjacency \<Rightarrow> vertex list \<Rightarrow> vertex set \<Rightarrow> vertex list \<Rightarrow> vertex list \<times> vertex set" where
  "dfs_visit d start visited =
     (if \<not> dict_contains d start \<or> start \<in> visited then ([], visited)
      else dfs_visit_neighbors d (fst (dict_getitem d start)) (insert start visited) [start])"
| "dfs_visit_neighbors d [] visited result = (result, visited)"
| "dfs_visit_neighbors d (neighbor # rest) visited result =
     (if neighbor \<notin> visited then
        (case dfs_visit d neighbor visited of
           (sub, visited') \<Rightarrow> dfs_visit_neighbors d rest visited' (result @ sub))
      else dfs_visit_neighbors d rest visited result)"
  by pat_completeness auto

lemma dfs_visit_visited_mono:
  "dfs_visit_dfs_visit_neighbors_dom (Inl (d, start, visited)) \<Longrightarrow>
     visited \<subseteq> snd (dfs_visit d start visited)"
  "dfs_visit_dfs_visit_neighbors_dom (Inr (d, ns, visited, result)) \<Longrightarrow>
     visited \<subseteq> snd (dfs_visit_neighbors d ns visited result)"
proof (induction d start visited and d ns visited result rule: dfs_visit_dfs_visit_neighbors.pinduct)
  case (1 d start visited)
  then show ?case by (auto simp: dfs_visit.psimps)
next
  case (2 d visited result)
  then show ?case by (simp add: dfs_visit_neighbors.psimps)
next
  case (3 d neighbor rest visited result)
  then show ?case
    by (fastforce simp: dfs_visit_neighbors.psimps split: prod.splits)
qed

lemma dict_contains_vertices: "dict_contains d k \<Longrightarrow> k \<in> vertices_of d"
  by (simp add: dict_contains_def dict_keys_def vertices_of_def)

termination dfs_visit
proof (relation "inv_image (less_than <*lex*> less_than)
         (\<lambda>x. case x of
                 Inl (d, start, visited) \<Rightarrow> (card (vertices_of d - visited), 0)
               | Inr (d, ns, visited, result) \<Rightarrow> (card (vertices_of d - visited), Suc (length ns)))",
       goal_cases)
  case 1
  show ?case by auto
next
  case (2 d start visited)
  then have "start \<in> vertices_of d - visited" by (simp add: dict_contains_vertices)
  then have "card (vertices_of d - insert start visited) < card (vertices_of d - visited)"
    by (intro psubset_card_mono) (auto simp: finite_vertices_of)
  then show ?case by simp
next
  case (3 d neighbor rest visited result)
  show ?case by simp
next
  case (4 d neighbor rest visited result sub visited')
  then have "visited \<subseteq> visited'"
    using dfs_visit_visited_mono(1)[of d neighbor visited] by (metis snd_conv)
  then have "card (vertices_of d - visited') \<le> card (vertices_of d - visited)"
    by (intro card_mono) (auto simp: finite_vertices_of)
  then show ?case by auto
next
  case (5 d neighbor rest visited result)
  show ?case by simp
qed

subsection \<open>A deep graph\<close>



subsection \<open>Invariants of the path searches\<close>

text \<open>
  What holds of every pair (vertex, path so far) in the work list of a path search from
  \<open>s\<close> to \<open>t\<close> with visited set \<open>V\<close>: the path leads from \<open>s\<close> to the vertex along
  recorded edges, repeats no vertex, avoids \<open>t\<close>, and all its vertices but the last have
  been visited.
\<close>

definition entry_ok ::
  "adjacency \<Rightarrow> vertex \<Rightarrow> vertex \<Rightarrow> vertex set \<Rightarrow> vertex \<times> vertex list \<Rightarrow> bool" where
  "entry_ok d s t V e =
     (path_from_to d s (fst e) (snd e) \<and> distinct (snd e) \<and> t \<notin> set (snd e) \<and>
      set (butlast (snd e)) \<subseteq> V)"

text \<open>
  The invariant of the \<^verbatim>\<open>find_path_bfs\<close> loop: the entries are as above, the target is
  not visited, the queue is ordered by path length and its lengths differ by at most one,
  every neighbour of a visited vertex is visited or queued, and every walk from \<open>s\<close> to an
  unvisited vertex passes through an unvisited queued vertex whose queued path is no
  longer than the part of the walk up to it.
\<close>

definition bfs_inv ::
  "adjacency \<Rightarrow> vertex \<Rightarrow> vertex \<Rightarrow> (vertex \<times> vertex list) list \<Rightarrow> vertex set \<Rightarrow> bool" where
  "bfs_inv d s t queue V =
     ((\<forall>e \<in> set queue. entry_ok d s t V e) \<and>
      t \<notin> V \<and>
      sorted_wrt (\<lambda>a b. length (snd a) \<le> length (snd b)) queue \<and>
      (\<forall>a \<in> set queue. \<forall>b \<in> set queue. length (snd b) \<le> Suc (length (snd a))) \<and>
      (\<forall>x \<in> V. \<forall>y \<in> set (dict_get d x). y \<noteq> t \<and> (y \<in> V \<or> y \<in> fst ` set queue)) \<and>
      (\<forall>q u. path_from_to d s u q \<and> u \<notin> V \<longrightarrow>
         (\<exists>q1 w q2 p. q = q1 @ w # q2 \<and> w \<notin> V \<and> (w, p) \<in> set queue \<and>
                      length p \<le> Suc (length q1))))"

section \<open>Facts about the dictionary primitives\<close>

lemma getitem_key: "dict_contains d k \<Longrightarrow> dict_getitem d k = (dict_get d k, d)"
  by (cases "map_of d k")
     (simp_all add: dict_contains_def dict_keys_def dict_getitem_def dict_get_def
        map_of_eq_None_iff)

lemma getitem_get: "dict_getitem d k = (vs, d') \<Longrightarrow> vs = dict_get d k"
  by (auto simp: dict_getitem_def dict_get_def split: option.splits)

lemma getitem_get_after: "dict_getitem d k = (vs, d') \<Longrightarrow> dict_get d' x = dict_get d x"
  by (auto simp: dict_getitem_def dict_get_def map_add_def split: option.splits if_splits)

lemma closed_neighbors:
  "closed d \<Longrightarrow> n \<in> set (dict_get d k) \<Longrightarrow> dict_contains d n"
  by (cases "map_of d k") (auto simp: closed_def dict_get_def dest!: map_of_SomeD)

lemma setitem_keys: "set (dict_keys (dict_setitem d k v)) = insert k (set (dict_keys d))"
  by (induction d k v rule: dict_setitem.induct) (auto simp: dict_keys_def)

lemma setitem_get: "dict_get (dict_setitem d k v) x = (if x = k then v else dict_get d x)"
  by (induction d k v rule: dict_setitem.induct) (auto simp: dict_get_def)

lemma setitem_distinct: "distinct (dict_keys d) \<Longrightarrow> distinct (dict_keys (dict_setitem d k v))"
proof (induction d k v rule: dict_setitem.induct)
  case (1 k v)
  then show ?case by (simp add: dict_keys_def)
next
  case (2 k' v' d k v)
  then show ?case using setitem_keys[of d k v] by (auto simp: dict_keys_def)
qed

lemma setitem_entries: "set (dict_setitem d k v) \<subseteq> insert (k, v) (set d)"
  by (induction d k v rule: dict_setitem.induct) auto

lemma closed_setitem:
  assumes "closed d" and "\<forall>n \<in> set v. n = k \<or> dict_contains d n"
  shows "closed (dict_setitem d k v)"
  unfolding closed_def
proof (intro ballI)
  fix e n
  assume e: "e \<in> set (dict_setitem d k v)" and n: "n \<in> set (snd e)"
  from e setitem_entries[of d k v] have "e = (k, v) \<or> e \<in> set d" by auto
  then have "n = k \<or> dict_contains d n"
    using assms n by (auto simp: closed_def)
  then show "dict_contains (dict_setitem d k v) n"
    by (auto simp: dict_contains_def setitem_keys)
qed

lemma append_key:
  "dict_contains d k \<Longrightarrow> dict_append d k x = dict_setitem d k (dict_get d k @ [x])"
  by (simp add: dict_append_def getitem_key)

lemma closed_append:
  "closed d \<Longrightarrow> dict_contains d k \<Longrightarrow> dict_contains d x \<Longrightarrow> closed (dict_append d k x)"
  by (auto simp: append_key intro!: closed_setitem dest: closed_neighbors)

lemma contains_setitem: "dict_contains (dict_setitem d k v) x \<longleftrightarrow> x = k \<or> dict_contains d x"
  by (auto simp: dict_contains_def setitem_keys)

lemma contains_append:
  "dict_contains d k \<Longrightarrow> dict_contains (dict_append d k x) y \<longleftrightarrow> dict_contains d y"
  by (auto simp: append_key contains_setitem)

lemma get_missing: "\<not> dict_contains d k \<Longrightarrow> dict_get d k = []"
  by (cases "map_of d k")
     (auto simp: dict_get_def dict_contains_def dict_keys_def rev_image_eqI dest!: map_of_SomeD)

lemma ensure_key_contains: "dict_contains (ensure_key d k) x \<longleftrightarrow> x = k \<or> dict_contains d x"
  by (auto simp: ensure_key_def contains_setitem)

lemma ensure_key_get: "dict_get (ensure_key d k) x = dict_get d x"
  by (simp add: ensure_key_def setitem_get get_missing)

lemma ensure_key_closed: "closed d \<Longrightarrow> closed (ensure_key d k)"
  by (simp add: ensure_key_def closed_setitem)

lemma ensure_key_distinct: "distinct (dict_keys d) \<Longrightarrow> distinct (dict_keys (ensure_key d k))"
  by (simp add: ensure_key_def setitem_distinct)

section \<open>Mutation keeps the invariant\<close>

lemma add_edge_closed:
  "closed (adjacency_list g) \<Longrightarrow> closed (adjacency_list (add_edge g u w))"
  by (simp add: add_edge_def Let_def closed_append ensure_key_closed ensure_key_contains
      contains_append)

lemma add_vertex_closed:
  "closed (adjacency_list g) \<Longrightarrow> closed (adjacency_list (add_vertex g v))"
  by (simp add: add_vertex_def ensure_key_closed)

lemma add_edge_get:
  "dict_get (adjacency_list (add_edge g u w)) x =
     dict_get (adjacency_list g) x
       @ (if x = u then [w] else [])
       @ (if \<not> directed g \<and> x = w then [u] else [])"
  by (simp add: add_edge_def Let_def append_key ensure_key_contains contains_append
      setitem_get ensure_key_get contains_setitem)

text \<open>The keys stay pairwise different, so the association list stands for a dictionary.\<close>

lemma add_vertex_distinct:
  "distinct (dict_keys (adjacency_list g)) \<Longrightarrow>
     distinct (dict_keys (adjacency_list (add_vertex g v)))"
  by (simp add: add_vertex_def ensure_key_distinct)

lemma add_edge_distinct:
  "distinct (dict_keys (adjacency_list g)) \<Longrightarrow>
     distinct (dict_keys (adjacency_list (add_edge g u w)))"
  by (simp add: add_edge_def Let_def append_key ensure_key_contains contains_append
      contains_setitem setitem_distinct ensure_key_distinct)

text \<open>
  C7. The empty mapping of a new graph is closed, and \<^verbatim>\<open>add_vertex\<close> and \<^verbatim>\<open>add_edge\<close>
  keep the mapping closed: every vertex in a neighbour list is a key. On an undirected
  graph \<^verbatim>\<open>add_edge(u, w)\<close> appends w to the list of u and u to the list of w (for a
  self-loop the one list receives both entries); on a directed graph it appends only w to
  the list of u. No other list changes, and the directed flag is kept.
\<close>

theorem closed_invariant_and_add_edge:
  "closed (adjacency_list (Graph dir)) \<and>
   (closed (adjacency_list g) \<longrightarrow> closed (adjacency_list (add_vertex g v))) \<and>
   (closed (adjacency_list g) \<longrightarrow> closed (adjacency_list (add_edge g u w))) \<and>
   (\<not> directed g \<and> u \<noteq> w \<longrightarrow>
      dict_get (adjacency_list (add_edge g u w)) u = dict_get (adjacency_list g) u @ [w] \<and>
      dict_get (adjacency_list (add_edge g u w)) w = dict_get (adjacency_list g) w @ [u]) \<and>
   (\<not> directed g \<and> u = w \<longrightarrow>
      dict_get (adjacency_list (add_edge g u w)) u = dict_get (adjacency_list g) u @ [u, u]) \<and>
   (directed g \<longrightarrow>
      dict_get (adjacency_list (add_edge g u w)) u = dict_get (adjacency_list g) u @ [w]) \<and>
   (x \<noteq> u \<and> (directed g \<or> x \<noteq> w) \<longrightarrow>
      dict_get (adjacency_list (add_edge g u w)) x = dict_get (adjacency_list g) x) \<and>
   directed (add_edge g u w) = directed g"
  by (auto simp: add_edge_get add_edge_closed add_vertex_closed)
     (auto simp: Graph_def closed_def add_edge_def Let_def)

text \<open>The definitions a concrete dictionary is evaluated with.\<close>

lemmas dict_defs = dict_contains_def dict_keys_def dict_getitem_def dict_get_def dict_append_def ensure_key_def

theorem closed_invariant_and_add_edge_witness:
  "closed (adjacency_list (Graph True))
   \<and> closed (adjacency_list (add_edge (Graph True) ''A'' ''B''))
   \<and> closed (adjacency_list (add_vertex (add_edge (Graph True) ''A'' ''B'') ''C''))
   \<and> closed (adjacency_list (add_edge (add_edge (Graph True) ''A'' ''B'') ''B'' ''C''))
   \<and> directed (add_edge (Graph True) ''A'' ''B'')
   \<and> dict_get (adjacency_list (add_edge (add_edge (Graph True) ''A'' ''B'') ''B'' ''C'')) ''B''
        = dict_get (adjacency_list (add_edge (Graph True) ''A'' ''B'')) ''B'' @ [''C'']
   \<and> dict_get (adjacency_list (add_edge (add_edge (Graph True) ''A'' ''B'') ''B'' ''C'')) ''A''
        = dict_get (adjacency_list (add_edge (Graph True) ''A'' ''B'')) ''A''"
proof -
  have d: "directed (add_edge (Graph True) ''A'' ''B'')"
    by (simp add: add_edge_def Graph_def Let_def)
  have c: "closed (adjacency_list (add_edge (Graph True) ''A'' ''B''))"
    using closed_invariant_and_add_edge[of True "Graph True" "''C''" "''A''" "''B''" "''A''"]
    by blast
  show ?thesis
    using closed_invariant_and_add_edge
      [of True "add_edge (Graph True) ''A'' ''B''" "''C''" "''B''" "''C''" "''A''"] c d
    by simp
qed

text \<open>
  C5. On a vertex that is not a key, the three traversals return the empty list and both
  path searches return None (for an unknown start as for an unknown target), as normal
  results; \<^verbatim>\<open>get_neighbors\<close> returns the empty list. The graph is left as it was.
\<close>

theorem unknown_vertex_results:
  "\<not> dict_contains (adjacency_list g) v \<Longrightarrow>
     breadth_first_search g v = ([], g) \<and>
     depth_first_search g v = ([], g) \<and>
     dfs_recursive g v visited limit = (Inr [], g) \<and>
     find_path_bfs g v t = (None, g) \<and>
     find_path_bfs g s v = (None, g) \<and>
     find_path_dfs g v t = (None, g) \<and>
     find_path_dfs g s v = (None, g) \<and>
     get_neighbors g v = ([], g)"
  by (simp add: breadth_first_search_def depth_first_search_def dfs_recursive_def
      find_path_bfs_def find_path_dfs_def get_neighbors_def get_missing)

theorem unknown_vertex_results_witness:
  "\<not> dict_contains (adjacency_list (add_edge (Graph False) ''A'' ''B'')) ''Z'' \<and>
   breadth_first_search (add_edge (Graph False) ''A'' ''B'') ''Z''
     = ([], add_edge (Graph False) ''A'' ''B'') \<and>
   find_path_dfs (add_edge (Graph False) ''A'' ''B'') ''A'' ''Z''
     = (None, add_edge (Graph False) ''A'' ''B'')"
proof -
  have h: "\<not> dict_contains (adjacency_list (add_edge (Graph False) ''A'' ''B'')) ''Z''"
    by (simp add: add_edge_def Graph_def Let_def dict_defs)
  show ?thesis
    using unknown_vertex_results[OF h, of None 5 "''A''" "''A''"] h by simp
qed

text \<open>
  C9. For a vertex v that is a key, \<^verbatim>\<open>find_path_bfs(v, v)\<close> and \<^verbatim>\<open>find_path_dfs(v, v)\<close>
  return the one-element path [v], whatever the neighbour list of v holds.
\<close>

theorem same_vertex_path:
  "dict_contains (adjacency_list g) v \<Longrightarrow>
     find_path_bfs g v v = (Some [v], g) \<and> find_path_dfs g v v = (Some [v], g)"
  by (simp add: find_path_bfs_def find_path_dfs_def)

theorem same_vertex_path_witness:
  "dict_contains (adjacency_list (add_vertex (Graph False) ''A'')) ''A'' \<and>
   find_path_bfs (add_vertex (Graph False) ''A'') ''A'' ''A''
     = (Some [''A''], add_vertex (Graph False) ''A'') \<and>
   find_path_dfs (add_vertex (Graph False) ''A'') ''A'' ''A''
     = (Some [''A''], add_vertex (Graph False) ''A'')"
proof -
  have h: "dict_contains (adjacency_list (add_vertex (Graph False) ''A'')) ''A''"
    by (simp add: add_vertex_def Graph_def dict_defs)
  show ?thesis using same_vertex_path[OF h] h by simp
qed

section \<open>Queries leave a closed mapping as it is\<close>

lemma bfs_loop_unchanged:
  "closed d \<Longrightarrow> \<forall>v \<in> set queue. dict_contains d v \<Longrightarrow>
     snd (snd (bfs_loop d queue visited result)) = d"
proof (induction d queue visited result rule: bfs_loop.induct)
  case (1 d visited result)
  then show ?case by simp
next
  case (2 d current queue visited result)
  have k: "dict_getitem d current = (dict_get d current, d)"
    using 2(4) by (simp add: getitem_key)
  have n: "\<forall>v \<in> set (dict_get d current). dict_contains d v"
    using 2(3) closed_neighbors by blast
  show ?case
  proof (cases "current \<in> visited")
    case True
    then show ?thesis using 2(2)[OF _ 2(3)] 2(4) by simp
  next
    case False
    then show ?thesis using 2(1)[OF False k[symmetric] 2(3)] 2(4) n k by auto
  qed
qed

lemma dfs_loop_unchanged:
  "closed d \<Longrightarrow> \<forall>v \<in> set stack. dict_contains d v \<Longrightarrow>
     snd (dfs_loop d stack visited result) = d"
proof (induction d stack visited result rule: dfs_loop.induct)
  case (1 d stack visited result)
  show ?case
  proof (cases "stack = []")
    case True
    then show ?thesis by (simp add: dfs_loop.simps)
  next
    case ne: False
    then have l: "dict_contains d (last stack)" using 1(4) by simp
    have b: "\<forall>v \<in> set (butlast stack). dict_contains d v"
      using 1(4) by (auto dest: in_set_butlastD)
    have k: "dict_getitem d (last stack) = (dict_get d (last stack), d)"
      using l by (simp add: getitem_key)
    have n: "\<forall>v \<in> set (dict_get d (last stack)). dict_contains d v"
      using 1(3) closed_neighbors by blast
    show ?thesis
    proof (cases "last stack \<in> visited")
      case True
      then show ?thesis using 1(2)[OF ne _ 1(3) b] ne
        by (subst dfs_loop.simps) simp
    next
      case False
      then show ?thesis using 1(1)[OF ne False k[symmetric] 1(3)] ne b n k
        by (subst dfs_loop.simps) auto
    qed
  qed
qed


lemma scan_neighbors_vertices:
  "scan_neighbors target visited path ns work = Inr work' \<Longrightarrow>
     fst ` set work' \<subseteq> fst ` set work \<union> set ns"
  by (drule scan_neighbors_Inr) auto

lemma find_path_bfs_loop_unchanged:
  "closed d \<Longrightarrow> \<forall>e \<in> set queue. dict_contains d (fst e) \<Longrightarrow>
     snd (find_path_bfs_loop d target queue visited) = d"
proof (induction d target queue visited rule: find_path_bfs_loop.induct)
  case (1 d target visited)
  then show ?case by simp
next
  case (2 d target current path queue visited)
  have k: "dict_getitem d current = (dict_get d current, d)"
    using 2(4) by (simp add: getitem_key)
  have n: "\<forall>v \<in> set (dict_get d current). dict_contains d v"
    using 2(3) closed_neighbors by blast
  show ?case
  proof (cases "current \<in> visited")
    case True
    then show ?thesis using 2(1)[OF True 2(3)] 2(4) by simp
  next
    case False
    show ?thesis
    proof (cases "scan_neighbors target (insert current visited) path (dict_get d current) queue")
      case (Inl found)
      then show ?thesis using False k by simp
    next
      case (Inr queue')
      have "\<forall>e \<in> set queue'. dict_contains d (fst e)"
        using scan_neighbors_vertices[OF Inr] n 2(4) by (force simp: subset_iff)
      then show ?thesis using 2(2)[OF False k[symmetric] Inr 2(3)] False k Inr
        by simp
    qed
  qed
qed

lemma find_path_dfs_loop_unchanged:
  "closed d \<Longrightarrow> \<forall>e \<in> set stack. dict_contains d (fst e) \<Longrightarrow>
     snd (find_path_dfs_loop d target stack visited) = d"
proof (induction d target stack visited rule: find_path_dfs_loop.induct)
  case (1 d target stack visited)
  show ?case
  proof (cases "stack = []")
    case True
    then show ?thesis by (simp add: find_path_dfs_loop.simps)
  next
    case ne: False
    then have l: "dict_contains d (fst (last stack))" using 1(4) by simp
    have b: "\<forall>e \<in> set (butlast stack). dict_contains d (fst e)"
      using 1(4) by (auto dest: in_set_butlastD)
    have k: "dict_getitem d (fst (last stack)) = (dict_get d (fst (last stack)), d)"
      using l by (simp add: getitem_key)
    have n: "\<forall>v \<in> set (dict_get d (fst (last stack))). dict_contains d v"
      using 1(3) closed_neighbors by blast
    show ?thesis
    proof (cases "fst (last stack) \<in> visited")
      case True
      then show ?thesis using 1(1)[OF ne True 1(3) b] ne
        by (subst find_path_dfs_loop.simps) simp
    next
      case False
      show ?thesis
      proof (cases "scan_neighbors target (insert (fst (last stack)) visited) (snd (last stack))
                      (dict_get d (fst (last stack))) (butlast stack)")
        case (Inl found)
        then show ?thesis using False k ne by (subst find_path_dfs_loop.simps) simp
      next
        case (Inr stack')
        have "\<forall>e \<in> set stack'. dict_contains d (fst e)"
          using scan_neighbors_vertices[OF Inr] n b by (force simp: subset_iff)
        then show ?thesis
          using 1(2)[OF ne False k[symmetric] Inr 1(3)] False k Inr ne
          by (subst find_path_dfs_loop.simps) simp
      qed
    qed
  qed
qed

lemma bfs_loop_visited_keys:
  "closed d \<Longrightarrow> \<forall>v \<in> set queue. dict_contains d v \<Longrightarrow> \<forall>v \<in> visited. dict_contains d v \<Longrightarrow>
     \<forall>v \<in> fst (snd (bfs_loop d queue visited result)). dict_contains d v"
proof (induction d queue visited result rule: bfs_loop.induct)
  case (1 d visited result)
  then show ?case by simp
next
  case (2 d current queue visited result)
  have k: "dict_getitem d current = (dict_get d current, d)"
    using 2(4) by (simp add: getitem_key)
  have n: "\<forall>v \<in> set (dict_get d current). dict_contains d v"
    using 2(3) closed_neighbors by blast
  show ?case
  proof (cases "current \<in> visited")
    case True
    then show ?thesis using 2(2)[OF _ 2(3) _ 2(5)] 2(4) by simp
  next
    case False
    then show ?thesis using 2(1)[OF False k[symmetric] 2(3)] 2(4) 2(5) n k by auto
  qed
qed

lemma components_loop_unchanged:
  "closed d \<Longrightarrow> \<forall>k \<in> set ks. dict_contains d k \<Longrightarrow>
     snd (components_loop d size0 ks visited components) = d"
proof (induction ks arbitrary: visited components)
  case Nil
  then show ?case by simp
next
  case (Cons k ks)
  have u: "snd (snd (bfs_loop d [k] visited [])) = d"
    using Cons.prems by (intro bfs_loop_unchanged) auto
  show ?case using Cons u by (auto split: prod.splits)
qed


lemma breadth_first_search_unchanged:
  "closed (adjacency_list g) \<Longrightarrow> snd (breadth_first_search g v) = g"
  using bfs_loop_unchanged[of "adjacency_list g" "[v]" "{}" "[]"]
  by (auto simp: breadth_first_search_def split: prod.splits)

text \<open>
  C6. On a graph whose mapping is closed (the invariant of the data model, which
  construction through \<^verbatim>\<open>add_vertex\<close> and \<^verbatim>\<open>add_edge\<close> maintains), every query and
  traversal returns the graph it was called on: neither the mapping nor the directed flag
  changes.
\<close>

theorem queries_keep_state:
  "closed (adjacency_list g) \<Longrightarrow>
     snd (breadth_first_search g v) = g \<and>
     snd (depth_first_search g v) = g \<and>
     snd (dfs_recursive g v visited limit) = g \<and>
     snd (find_path_bfs g s t) = g \<and>
     snd (find_path_dfs g s t) = g \<and>
     snd (connected_components_bfs g) = g \<and>
     snd (is_connected g) = g \<and>
     snd (get_vertices g) = g \<and>
     snd (get_neighbors g v) = g"
proof (intro conjI)
  assume c: "closed (adjacency_list g)"
  show "snd (breadth_first_search g v) = g"
    using c by (rule breadth_first_search_unchanged)
  show "snd (depth_first_search g v) = g"
    using dfs_loop_unchanged[OF c, of "[v]" "{}" "[]"]
    by (auto simp: depth_first_search_def split: prod.splits)
  show "snd (dfs_recursive g v visited limit) = g"
    by (simp add: dfs_recursive_def)
  show "snd (find_path_bfs g s t) = g"
    using find_path_bfs_loop_unchanged[OF c, of "[(s, [s])]" t "{}"]
    by (auto simp: find_path_bfs_def split: prod.splits)
  show "snd (find_path_dfs g s t) = g"
    using find_path_dfs_loop_unchanged[OF c, of "[(s, [s])]" t "{}"]
    by (auto simp: find_path_dfs_def split: prod.splits)
  show "snd (connected_components_bfs g) = g"
    using components_loop_unchanged[OF c, of "dict_keys (adjacency_list g)"
        "length (adjacency_list g)" "{}" "[]"]
    by (auto simp: connected_components_bfs_def dict_contains_def split: prod.splits)
  show "snd (is_connected g) = g"
    using breadth_first_search_unchanged[OF c, of "fst (hd (adjacency_list g))"]
    by (auto simp: is_connected_def split: prod.splits)
  show "snd (get_vertices g) = g"
    by (simp add: get_vertices_def)
  show "snd (get_neighbors g v) = g"
    by (simp add: get_neighbors_def)
qed

theorem queries_keep_state_witness:
  "closed (adjacency_list (add_edge (Graph False) ''A'' ''B'')) \<and>
   snd (breadth_first_search (add_edge (Graph False) ''A'' ''B'') ''A'')
     = add_edge (Graph False) ''A'' ''B'' \<and>
   snd (connected_components_bfs (add_edge (Graph False) ''A'' ''B''))
     = add_edge (Graph False) ''A'' ''B''"
proof -
  have h: "closed (adjacency_list (add_edge (Graph False) ''A'' ''B''))"
    by (simp add: add_edge_def Graph_def Let_def closed_def dict_defs)
  show ?thesis
    using queries_keep_state[OF h, of "''A''" None 5 "''A''" "''B''"] h by simp
qed

text \<open>
  C8. \<^verbatim>\<open>is_connected\<close> answers True on the empty graph. On a non-empty graph its answer is
  whether the number of different vertices in the breadth-first search from the first key
  equals the number of keys after that search; when the mapping is closed the search
  leaves the graph unchanged, so this is the number of keys of the graph itself.
\<close>

theorem is_connected_spec:
  "(adjacency_list g = [] \<longrightarrow> fst (is_connected g) = True) \<and>
   (adjacency_list g \<noteq> [] \<longrightarrow>
      fst (is_connected g) =
        (card (set (fst (breadth_first_search g (hd (fst (get_vertices g))))))
           = length (fst (get_vertices
                (snd (breadth_first_search g (hd (fst (get_vertices g))))))))) \<and>
   (adjacency_list g \<noteq> [] \<and> closed (adjacency_list g) \<longrightarrow>
      fst (is_connected g) =
        (card (set (fst (breadth_first_search g (hd (fst (get_vertices g))))))
           = length (fst (get_vertices g))))"
proof (intro conjI impI)
  show "fst (is_connected g) = True" if "adjacency_list g = []"
    using that by (simp add: is_connected_def)
  show g: "fst (is_connected g) =
        (card (set (fst (breadth_first_search g (hd (fst (get_vertices g))))))
           = length (fst (get_vertices
                (snd (breadth_first_search g (hd (fst (get_vertices g))))))))"
    if "adjacency_list g \<noteq> []"
    using that
    by (simp add: is_connected_def get_vertices_def dict_keys_def hd_map split: prod.splits)
  show "fst (is_connected g) =
        (card (set (fst (breadth_first_search g (hd (fst (get_vertices g))))))
           = length (fst (get_vertices g)))"
    if "adjacency_list g \<noteq> [] \<and> closed (adjacency_list g)"
    using that g breadth_first_search_unchanged[of g "hd (fst (get_vertices g))"]
    by simp
qed

theorem is_connected_spec_witness:
  "adjacency_list (Graph False) = [] \<and> fst (is_connected (Graph False)) = True \<and>
   adjacency_list (add_edge (Graph False) ''A'' ''B'') \<noteq> [] \<and>
   closed (adjacency_list (add_edge (Graph False) ''A'' ''B'')) \<and>
   fst (is_connected (add_edge (Graph False) ''A'' ''B'')) =
     (card (set (fst (breadth_first_search (add_edge (Graph False) ''A'' ''B'')
                   (hd (fst (get_vertices (add_edge (Graph False) ''A'' ''B'')))))))
        = length (fst (get_vertices (add_edge (Graph False) ''A'' ''B''))))"
proof -
  have e: "adjacency_list (Graph False) = []" by (simp add: Graph_def)
  have n: "adjacency_list (add_edge (Graph False) ''A'' ''B'') \<noteq> []"
    by (simp add: add_edge_def Graph_def Let_def dict_defs)
  have h: "closed (adjacency_list (add_edge (Graph False) ''A'' ''B''))"
    by (simp add: add_edge_def Graph_def Let_def closed_def dict_defs)
  show ?thesis
    using is_connected_spec[of "Graph False"]
      is_connected_spec[of "add_edge (Graph False) ''A'' ''B''"] e n h
    by blast
qed

section \<open>Returned paths are simple paths of the graph\<close>

lemma is_walk_snoc:
  "is_walk d p \<Longrightarrow> n \<in> set (dict_get d (last p)) \<Longrightarrow> is_walk d (p @ [n])"
  by (induction d p rule: is_walk.induct) auto

lemma is_walk_same_neighbors:
  "(\<And>x. dict_get d' x = dict_get d x) \<Longrightarrow> is_walk d' p = is_walk d p"
  by (induction d p rule: is_walk.induct) auto

lemma is_walk_edge: "is_walk d (as @ x # y # bs) \<Longrightarrow> y \<in> set (dict_get d x)"
proof (induction as)
  case Nil
  then show ?case by simp
next
  case (Cons a as)
  then show ?case by (cases as) auto
qed

lemma set_butlast_snoc: "p \<noteq> [] \<Longrightarrow> set p = insert (last p) (set (butlast p))"
  by (cases p rule: rev_cases) auto

lemma scan_found:
  assumes "entry_ok d s t V (c, path)"
    and "scan_neighbors t V' path (dict_get d c) work = Inl found"
  shows "path_from_to d s t found \<and> distinct found"
proof -
  from scan_neighbors_Inl[OF assms(2)]
  have f: "found = path @ [t]" and t: "t \<in> set (dict_get d c)" by auto
  from assms(1) have p: "path \<noteq> []" "hd path = s" "last path = c" "is_walk d path"
    "distinct path" "t \<notin> set path"
    by (auto simp: entry_ok_def path_from_to_def)
  have "is_walk d (path @ [t])" using p t by (intro is_walk_snoc) auto
  then show ?thesis using p f by (auto simp: path_from_to_def)
qed

lemma entry_ok_mono: "entry_ok d s t V e \<Longrightarrow> V \<subseteq> V' \<Longrightarrow> entry_ok d s t V' e"
  by (auto simp: entry_ok_def)

lemma entry_ok_extend:
  assumes "entry_ok d s t V (c, path)" and "n \<in> set (dict_get d c)"
    and "n \<notin> insert c V" and "n \<noteq> t"
  shows "entry_ok d s t (insert c V) (n, path @ [n])"
proof -
  from assms(1) have p: "path \<noteq> []" "hd path = s" "last path = c" "is_walk d path"
    "distinct path" "t \<notin> set path" "set (butlast path) \<subseteq> V"
    by (auto simp: entry_ok_def path_from_to_def)
  have w: "is_walk d (path @ [n])" using p assms(2) by (intro is_walk_snoc) auto
  have sp: "set path \<subseteq> insert c V" using set_butlast_snoc[OF p(1)] p(3) p(7) by auto
  then have "n \<notin> set path" using assms(3) by auto
  then show ?thesis using p w sp assms(4) by (auto simp: entry_ok_def path_from_to_def)
qed

lemma scan_entries:
  assumes "entry_ok d s t V (c, path)" and "\<forall>e \<in> set work. entry_ok d s t V e"
    and "scan_neighbors t (insert c V) path (dict_get d c) work = Inr work'"
  shows "\<forall>e \<in> set work'. entry_ok d s t (insert c V) e"
proof -
  from scan_neighbors_Inr[OF assms(3)]
  have w: "work' = work @ map (\<lambda>n. (n, path @ [n]))
                     (filter (\<lambda>n. n \<notin> insert c V) (dict_get d c))"
    and t: "t \<notin> set (dict_get d c)" by auto
  have old: "\<forall>e \<in> set work. entry_ok d s t (insert c V) e"
    using assms(2) entry_ok_mono by blast
  have new: "entry_ok d s t (insert c V) (n, path @ [n])"
    if "n \<in> set (dict_get d c)" "n \<notin> insert c V" for n
    using entry_ok_extend[OF assms(1) that] t that(1) by blast
  show ?thesis unfolding w using old new by auto
qed

lemma entry_ok_same_neighbors:
  assumes "\<And>x. dict_get d' x = dict_get d x"
  shows "entry_ok d' s t V e = entry_ok d s t V e"
  by (simp add: entry_ok_def path_from_to_def is_walk_same_neighbors[OF assms])

lemma find_path_bfs_loop_path:
  "\<forall>e \<in> set queue. entry_ok d s t V e \<Longrightarrow>
   fst (find_path_bfs_loop d t queue V) = Some p \<Longrightarrow>
   path_from_to d s t p \<and> distinct p"
proof (induction d t queue V rule: find_path_bfs_loop.induct)
  case (1 d target visited)
  then show ?case by simp
next
  case (2 d target current path queue visited)
  obtain d' where k: "dict_getitem d current = (dict_get d current, d')"
    using getitem_get by (metis surj_pair)
  have same: "\<And>x. dict_get d' x = dict_get d x"
    using getitem_get_after[OF k] .
  have c: "entry_ok d s target visited (current, path)" using 2(3) by simp
  show ?case
  proof (cases "current \<in> visited")
    case True
    then show ?thesis using 2(1)[OF True] 2(3) 2(4) by simp
  next
    case False
    show ?thesis
    proof (cases "scan_neighbors target (insert current visited) path (dict_get d current) queue")
      case (Inl found)
      then show ?thesis using scan_found[OF c Inl] 2(4) False k by simp
    next
      case (Inr queue')
      have "\<forall>e \<in> set queue'. entry_ok d s target (insert current visited) e"
        using scan_entries[OF c _ Inr] 2(3) by simp
      then have q: "\<forall>e \<in> set queue'. entry_ok d' s target (insert current visited) e"
        by (simp add: entry_ok_same_neighbors[OF same])
      have "path_from_to d' s target p \<and> distinct p"
        using 2(2)[OF False k[symmetric] Inr q] 2(4) False k Inr by simp
      then show ?thesis by (simp add: path_from_to_def is_walk_same_neighbors[OF same])
    qed
  qed
qed

lemma find_path_dfs_loop_path:
  "\<forall>e \<in> set stack. entry_ok d s t V e \<Longrightarrow>
   fst (find_path_dfs_loop d t stack V) = Some p \<Longrightarrow>
   path_from_to d s t p \<and> distinct p"
proof (induction d t stack V rule: find_path_dfs_loop.induct)
  case (1 d target stack visited)
  show ?case
  proof (cases "stack = []")
    case True
    then show ?thesis using 1(4) by (simp add: find_path_dfs_loop.simps)
  next
    case ne: False
    let ?c = "fst (last stack)" and ?path = "snd (last stack)"
    obtain d' where k: "dict_getitem d ?c = (dict_get d ?c, d')"
      using getitem_get by (metis surj_pair)
    have same: "\<And>x. dict_get d' x = dict_get d x"
      using getitem_get_after[OF k] .
    have c: "entry_ok d s target visited (?c, ?path)" using 1(3) ne by simp
    have b: "\<forall>e \<in> set (butlast stack). entry_ok d s target visited e"
      using 1(3) by (auto dest: in_set_butlastD)
    show ?thesis
    proof (cases "?c \<in> visited")
      case True
      then show ?thesis using 1(1)[OF ne True b] 1(4) ne
        by (subst (asm) find_path_dfs_loop.simps) simp
    next
      case False
      show ?thesis
      proof (cases "scan_neighbors target (insert ?c visited) ?path (dict_get d ?c)
                      (butlast stack)")
        case (Inl found)
        have "found = p" using 1(4) False k ne Inl
          by (subst (asm) find_path_dfs_loop.simps) simp
        then show ?thesis using scan_found[OF c Inl] by simp
      next
        case (Inr stack')
        have "\<forall>e \<in> set stack'. entry_ok d s target (insert ?c visited) e"
          using scan_entries[OF c b Inr] .
        then have q: "\<forall>e \<in> set stack'. entry_ok d' s target (insert ?c visited) e"
          by (simp add: entry_ok_same_neighbors[OF same])
        have "fst (find_path_dfs_loop d' target stack' (insert ?c visited)) = Some p"
          using 1(4) False k ne Inr by (subst (asm) find_path_dfs_loop.simps) simp
        then have "path_from_to d' s target p \<and> distinct p"
          using 1(2)[OF ne False k[symmetric] Inr q] by simp
        then show ?thesis by (simp add: path_from_to_def is_walk_same_neighbors[OF same])
      qed
    qed
  qed
qed

lemma entry_ok_start: "entry_ok d s t {} (s, [s]) \<longleftrightarrow> s \<noteq> t"
  by (auto simp: entry_ok_def path_from_to_def)


lemma is_walk_nth:
  "is_walk d p \<Longrightarrow> Suc i < length p \<Longrightarrow> p ! Suc i \<in> set (dict_get d (p ! i))"
proof (induction d p arbitrary: i rule: is_walk.induct)
  case (3 d u v rest)
  then show ?case by (cases i) auto
qed auto

lemma find_path_bfs_path:
  assumes "fst (find_path_bfs g s t) = Some p"
  shows "path_from_to (adjacency_list g) s t p \<and> distinct p"
proof (cases "s = t")
  case True
  then show ?thesis using assms
    by (auto simp: find_path_bfs_def path_from_to_def split: if_splits)
next
  case False
  then have e: "\<forall>e \<in> set [(s, [s])]. entry_ok (adjacency_list g) s t {} e"
    by (simp add: entry_ok_start)
  have "fst (find_path_bfs_loop (adjacency_list g) t [(s, [s])] {}) = Some p"
    using assms False by (auto simp: find_path_bfs_def split: if_splits prod.splits)
  then show ?thesis using find_path_bfs_loop_path[OF e] by simp
qed

lemma find_path_dfs_path:
  assumes "fst (find_path_dfs g s t) = Some p"
  shows "path_from_to (adjacency_list g) s t p \<and> distinct p"
proof (cases "s = t")
  case True
  then show ?thesis using assms
    by (auto simp: find_path_dfs_def path_from_to_def split: if_splits)
next
  case False
  then have e: "\<forall>e \<in> set [(s, [s])]. entry_ok (adjacency_list g) s t {} e"
    by (simp add: entry_ok_start)
  have "fst (find_path_dfs_loop (adjacency_list g) t [(s, [s])] {}) = Some p"
    using assms False by (auto simp: find_path_dfs_def split: if_splits prod.splits)
  then show ?thesis using find_path_dfs_loop_path[OF e] by simp
qed

text \<open>
  C10. A path returned by \<^verbatim>\<open>find_path_bfs\<close> or \<^verbatim>\<open>find_path_dfs\<close> starts at the start
  vertex, ends at the target, steps only along edges recorded in the mapping (each vertex
  is in the neighbour list of the one before it), and contains no vertex twice.
\<close>

theorem returned_path_is_simple:
  "fst (find_path_bfs g s t) = Some p \<or> fst (find_path_dfs g s t) = Some p \<Longrightarrow>
     p \<noteq> [] \<and> hd p = s \<and> last p = t \<and>
     (\<forall>i. Suc i < length p \<longrightarrow> p ! Suc i \<in> set (dict_get (adjacency_list g) (p ! i))) \<and>
     distinct p"
proof -
  assume "fst (find_path_bfs g s t) = Some p \<or> fst (find_path_dfs g s t) = Some p"
  then have "path_from_to (adjacency_list g) s t p \<and> distinct p"
    using find_path_bfs_path find_path_dfs_path by blast
  then show ?thesis by (auto simp: path_from_to_def is_walk_nth)
qed

theorem returned_path_is_simple_witness:
  "fst (find_path_bfs (add_edge (add_edge (Graph True) ''A'' ''B'') ''B'' ''C'') ''A'' ''C'')
     = Some [''A'', ''B'', ''C''] \<and>
   fst (find_path_dfs (add_edge (add_edge (Graph True) ''A'' ''B'') ''B'' ''C'') ''A'' ''C'')
     = Some [''A'', ''B'', ''C''] \<and>
   hd [''A'', ''B'', ''C''] = ''A'' \<and> last [''A'', ''B'', ''C''] = ''C'' \<and>
   [''A'', ''B'', ''C''] ! Suc 0
     \<in> set (dict_get (adjacency_list (add_edge (add_edge (Graph True) ''A'' ''B'') ''B'' ''C''))
              ([''A'', ''B'', ''C''] ! 0)) \<and>
   [''A'', ''B'', ''C''] ! Suc (Suc 0)
     \<in> set (dict_get (adjacency_list (add_edge (add_edge (Graph True) ''A'' ''B'') ''B'' ''C''))
              ([''A'', ''B'', ''C''] ! Suc 0)) \<and>
   distinct [''A'', ''B'', ''C'']"
proof -
  let ?g = "add_edge (add_edge (Graph True) ''A'' ''B'') ''B'' ''C''"
  let ?p = "[''A'', ''B'', ''C'']"
  have b: "fst (find_path_bfs ?g ''A'' ''C'') = Some ?p"
    by (simp add: find_path_bfs_def add_edge_def Graph_def Let_def dict_defs)
  have f: "fst (find_path_dfs ?g ''A'' ''C'') = Some ?p"
    by (simp add: find_path_dfs_def find_path_dfs_loop.simps add_edge_def Graph_def Let_def
        dict_defs)
  have l0: "Suc 0 < length ?p" and l1: "Suc (Suc 0) < length ?p" by simp_all
  have r: "?p \<noteq> [] \<and> hd ?p = ''A'' \<and> last ?p = ''C'' \<and>
     (\<forall>i. Suc i < length ?p \<longrightarrow> ?p ! Suc i \<in> set (dict_get (adjacency_list ?g) (?p ! i))) \<and>
     distinct ?p"
    using returned_path_is_simple[of ?g "''A''" "''C''" ?p] b by blast
  then have "?p ! Suc 0 \<in> set (dict_get (adjacency_list ?g) (?p ! 0))"
    and "?p ! Suc (Suc 0) \<in> set (dict_get (adjacency_list ?g) (?p ! Suc 0))"
    using l0 l1 by blast+
  then show ?thesis using b f r by blast
qed

section \<open>The breadth-first path is a shortest one\<close>

lemma frontier:
  "xs \<noteq> [] \<Longrightarrow> hd xs \<in> A \<Longrightarrow> last xs \<notin> A \<Longrightarrow>
     \<exists>ys x y zs. xs = ys @ x # y # zs \<and> x \<in> A \<and> y \<notin> A"
proof (induction xs)
  case Nil
  then show ?case by simp
next
  case (Cons a rest)
  show ?case
  proof (cases rest)
    case Nil
    then show ?thesis using Cons.prems by simp
  next
    case (Cons b r)
    show ?thesis
    proof (cases "b \<in> A")
      case False
      have "a # rest = [] @ a # b # r" using Cons by simp
      then show ?thesis using False Cons.prems(2) by (metis list.sel(1))
    next
      case True
      then have "\<exists>ys x y zs. rest = ys @ x # y # zs \<and> x \<in> A \<and> y \<notin> A"
        using Cons.IH Cons.prems Cons by simp
      then obtain ys x y zs where "rest = ys @ x # y # zs" "x \<in> A" "y \<notin> A" by blast
      then have "a # rest = (a # ys) @ x # y # zs" by simp
      then show ?thesis using \<open>x \<in> A\<close> \<open>y \<notin> A\<close> by blast
    qed
  qed
qed

lemma entry_ok_vertex_not_target: "entry_ok d s t V (w, p) \<Longrightarrow> w \<noteq> t"
  by (auto simp: entry_ok_def path_from_to_def)

lemma bfs_inv_entries: "bfs_inv d s t Q V \<Longrightarrow> e \<in> set Q \<Longrightarrow> entry_ok d s t V e"
  by (simp add: bfs_inv_def)

lemma bfs_inv_target: "bfs_inv d s t Q V \<Longrightarrow> t \<notin> V"
  by (simp add: bfs_inv_def)

lemma bfs_inv_sorted:
  "bfs_inv d s t Q V \<Longrightarrow> sorted_wrt (\<lambda>a b. length (snd a) \<le> length (snd b)) Q"
  by (simp add: bfs_inv_def)

lemma bfs_inv_bound:
  "bfs_inv d s t Q V \<Longrightarrow> a \<in> set Q \<Longrightarrow> b \<in> set Q \<Longrightarrow> length (snd b) \<le> Suc (length (snd a))"
  by (simp add: bfs_inv_def)

lemma bfs_inv_edges:
  "bfs_inv d s t Q V \<Longrightarrow> x \<in> V \<Longrightarrow> y \<in> set (dict_get d x) \<Longrightarrow>
     y \<noteq> t \<and> (y \<in> V \<or> y \<in> fst ` set Q)"
  by (simp add: bfs_inv_def)

lemma bfs_inv_front:
  assumes "bfs_inv d s t Q V" and "path_from_to d s u q" and "u \<notin> V"
  shows "\<exists>q1 w q2 p. q = q1 @ w # q2 \<and> w \<notin> V \<and> (w, p) \<in> set Q \<and>
           length p \<le> Suc (length q1)"
proof -
  have "\<forall>q u. path_from_to d s u q \<and> u \<notin> V \<longrightarrow>
         (\<exists>q1 w q2 p. q = q1 @ w # q2 \<and> w \<notin> V \<and> (w, p) \<in> set Q \<and>
                      length p \<le> Suc (length q1))"
    using assms(1) unfolding bfs_inv_def by (elim conjE)
  then show ?thesis using assms(2,3) by blast
qed

lemma bfs_inv_start: "s \<noteq> t \<Longrightarrow> bfs_inv d s t [(s, [s])] {}"
proof -
  assume ne: "s \<noteq> t"
  have "\<exists>q1 w q2 p. q = q1 @ w # q2 \<and> w \<notin> {} \<and> (w, p) \<in> set [(s, [s])] \<and>
          length p \<le> Suc (length q1)"
    if "path_from_to d s u q" for q u
  proof -
    from that have "q = [] @ s # tl q" by (cases q) (auto simp: path_from_to_def)
    then show ?thesis
      by (intro exI[of _ "[]"] exI[of _ s] exI[of _ "tl q"] exI[of _ "[s]"]) simp
  qed
  then show ?thesis using ne by (simp add: bfs_inv_def entry_ok_start)
qed

lemma bfs_inv_empty: "bfs_inv d s t [] V \<Longrightarrow> \<not> path_from_to d s t q"
  using bfs_inv_front[of d s t "[]" V t q] bfs_inv_target[of d s t "[]" V] by auto

lemma bfs_inv_head_least:
  assumes "bfs_inv d s t ((c, path) # queue) V" and "(w, p) \<in> set ((c, path) # queue)"
  shows "length path \<le> length p"
  using bfs_inv_sorted[OF assms(1)] assms(2) by auto

lemma bfs_inv_found:
  assumes inv: "bfs_inv d s t ((c, path) # queue) V"
    and q: "path_from_to d s t q"
  shows "Suc (length path) \<le> length q"
proof -
  have "t \<notin> V" using inv by (rule bfs_inv_target)
  from bfs_inv_front[OF inv q this]
  obtain q1 w q2 p where d: "q = q1 @ w # q2" "(w, p) \<in> set ((c, path) # queue)"
    "length p \<le> Suc (length q1)"
    by blast
  have "entry_ok d s t V (w, p)" using bfs_inv_entries[OF inv d(2)] .
  then have "w \<noteq> t" by (rule entry_ok_vertex_not_target)
  moreover have "last q = t" using q by (simp add: path_from_to_def)
  ultimately have "q2 \<noteq> []" using d(1) by auto
  then have "Suc (Suc (length q1)) \<le> length q" using d(1) by (cases q2) auto
  moreover have "length path \<le> length p" using bfs_inv_head_least[OF inv d(2)] .
  ultimately show ?thesis using d(3) by linarith
qed

lemma bfs_inv_skip:
  assumes inv: "bfs_inv d s t ((c, path) # queue) V" and c: "c \<in> V"
  shows "bfs_inv d s t queue V"
  unfolding bfs_inv_def
proof (intro conjI)
  show "\<forall>e \<in> set queue. entry_ok d s t V e"
    using bfs_inv_entries[OF inv] by simp
  show "t \<notin> V" using inv by (rule bfs_inv_target)
  show "sorted_wrt (\<lambda>a b. length (snd a) \<le> length (snd b)) queue"
    using bfs_inv_sorted[OF inv] by simp
  show "\<forall>a \<in> set queue. \<forall>b \<in> set queue. length (snd b) \<le> Suc (length (snd a))"
    using bfs_inv_bound[OF inv] by simp
  show "\<forall>x \<in> V. \<forall>y \<in> set (dict_get d x). y \<noteq> t \<and> (y \<in> V \<or> y \<in> fst ` set queue)"
  proof (intro ballI)
    fix x y
    assume "x \<in> V" "y \<in> set (dict_get d x)"
    from bfs_inv_edges[OF inv this]
    show "y \<noteq> t \<and> (y \<in> V \<or> y \<in> fst ` set queue)" using c by auto
  qed
  show "\<forall>q u. path_from_to d s u q \<and> u \<notin> V \<longrightarrow>
         (\<exists>q1 w q2 p. q = q1 @ w # q2 \<and> w \<notin> V \<and> (w, p) \<in> set queue \<and>
                      length p \<le> Suc (length q1))"
  proof (intro allI impI)
    fix q u
    assume a: "path_from_to d s u q \<and> u \<notin> V"
    from bfs_inv_front[OF inv conjunct1[OF a] conjunct2[OF a]]
    obtain q1 w q2 p where d: "q = q1 @ w # q2" "w \<notin> V"
      "(w, p) \<in> set ((c, path) # queue)" "length p \<le> Suc (length q1)"
      by blast
    then have "(w, p) \<in> set queue" using c by auto
    then show "\<exists>q1 w q2 p. q = q1 @ w # q2 \<and> w \<notin> V \<and> (w, p) \<in> set queue \<and>
                      length p \<le> Suc (length q1)"
      using d by blast
  qed
qed

lemma sorted_wrt_same_length:
  "sorted_wrt (\<lambda>a b. length (snd a) \<le> length (snd b)) (map (\<lambda>n. (n, path @ [n])) ns)"
  by (induction ns) auto

lemma bfs_inv_push:
  assumes inv: "bfs_inv d s t ((c, path) # queue) V" and c: "c \<notin> V"
    and scan: "scan_neighbors t (insert c V) path (dict_get d c) queue = Inr queue'"
  shows "bfs_inv d s t queue' (insert c V)"
proof -
  let ?new = "map (\<lambda>n. (n, path @ [n])) (filter (\<lambda>n. n \<notin> insert c V) (dict_get d c))"
  from scan_neighbors_Inr[OF scan]
  have q': "queue' = queue @ ?new" and tn: "t \<notin> set (dict_get d c)" by auto
  have ec: "entry_ok d s t V (c, path)" using bfs_inv_entries[OF inv] by simp
  have eq: "\<forall>e \<in> set queue. entry_ok d s t V e" using bfs_inv_entries[OF inv] by simp
  have ct: "c \<noteq> t" using ec by (rule entry_ok_vertex_not_target)
  have newlen: "length (snd e) = Suc (length path)" if "e \<in> set ?new" for e
    using that by auto
  have oldlo: "length path \<le> length (snd e)" if "e \<in> set queue" for e
    using bfs_inv_head_least[OF inv, of "fst e" "snd e"] that by simp
  have oldhi: "length (snd e) \<le> Suc (length path)" if "e \<in> set queue" for e
    using bfs_inv_bound[OF inv, of "(c, path)" e] that by simp
  have pushed: "(y, path @ [y]) \<in> set queue'"
    if "y \<in> set (dict_get d c)" "y \<notin> insert c V" for y
    using that unfolding q' by auto
  show ?thesis
    unfolding bfs_inv_def
  proof (intro conjI)
    show "\<forall>e \<in> set queue'. entry_ok d s t (insert c V) e"
      using scan_entries[OF ec eq scan] .
    show "t \<notin> insert c V" using bfs_inv_target[OF inv] ct by auto
    show "sorted_wrt (\<lambda>a b. length (snd a) \<le> length (snd b)) queue'"
      unfolding q' sorted_wrt_append
    proof (intro conjI ballI)
      show "sorted_wrt (\<lambda>a b. length (snd a) \<le> length (snd b)) queue"
        using bfs_inv_sorted[OF inv] by simp
      show "sorted_wrt (\<lambda>a b. length (snd a) \<le> length (snd b)) ?new"
        by (rule sorted_wrt_same_length)
      fix a b
      assume "a \<in> set queue" "b \<in> set ?new"
      then show "length (snd a) \<le> length (snd b)"
        using oldhi[of a] newlen[of b] by simp
    qed
    show "\<forall>a \<in> set queue'. \<forall>b \<in> set queue'. length (snd b) \<le> Suc (length (snd a))"
    proof (intro ballI)
      fix a b
      assume "a \<in> set queue'" "b \<in> set queue'"
      then have a: "a \<in> set queue \<or> a \<in> set ?new" and b: "b \<in> set queue \<or> b \<in> set ?new"
        unfolding q' by auto
      have "length path \<le> length (snd a)" using a oldlo[of a] newlen[of a] by auto
      moreover have "length (snd b) \<le> Suc (length path)"
        using b oldhi[of b] newlen[of b] by auto
      ultimately show "length (snd b) \<le> Suc (length (snd a))" by linarith
    qed
    show "\<forall>x \<in> insert c V. \<forall>y \<in> set (dict_get d x).
            y \<noteq> t \<and> (y \<in> insert c V \<or> y \<in> fst ` set queue')"
    proof (intro ballI)
      fix x y
      assume x: "x \<in> insert c V" and y: "y \<in> set (dict_get d x)"
      show "y \<noteq> t \<and> (y \<in> insert c V \<or> y \<in> fst ` set queue')"
      proof (cases "x = c")
        case True
        then have "y \<noteq> t" using tn y by auto
        moreover have "y \<in> insert c V \<or> y \<in> fst ` set queue'"
          using pushed[of y] y True by force
        ultimately show ?thesis by simp
      next
        case False
        then have "x \<in> V" using x by simp
        from bfs_inv_edges[OF inv this y]
        show ?thesis unfolding q' by auto
      qed
    qed
    show "\<forall>q u. path_from_to d s u q \<and> u \<notin> insert c V \<longrightarrow>
           (\<exists>q1 w q2 p. q = q1 @ w # q2 \<and> w \<notin> insert c V \<and> (w, p) \<in> set queue' \<and>
                        length p \<le> Suc (length q1))"
    proof (intro allI impI)
      fix q u
      assume a: "path_from_to d s u q \<and> u \<notin> insert c V"
      then have pq: "path_from_to d s u q" and u: "u \<notin> insert c V" by auto
      have "u \<notin> V" using u by simp
      from bfs_inv_front[OF inv pq this]
      obtain q1 w q2 p where d: "q = q1 @ w # q2" "w \<notin> V"
        "(w, p) \<in> set ((c, path) # queue)" "length p \<le> Suc (length q1)"
        by blast
      show "\<exists>q1 w q2 p. q = q1 @ w # q2 \<and> w \<notin> insert c V \<and> (w, p) \<in> set queue' \<and>
                        length p \<le> Suc (length q1)"
      proof (cases "w = c")
        case False
        then have "(w, p) \<in> set queue'" "w \<notin> insert c V" using d(2,3) unfolding q' by auto
        then show ?thesis using d(1,4) by blast
      next
        case True
        have lp: "length path \<le> Suc (length q1)"
          using bfs_inv_head_least[OF inv d(3)] d(4) by linarith
        have "last (c # q2) = u" using pq d(1) True by (simp add: path_from_to_def)
        then have "last (c # q2) \<notin> insert c V" using u by simp
        from frontier[of "c # q2" "insert c V", OF _ _ this]
        obtain ys x y zs where f: "c # q2 = ys @ x # y # zs" "x \<in> insert c V"
          "y \<notin> insert c V"
          by auto
        have qd: "q = (q1 @ ys @ [x]) @ y # zs" using d(1) True f(1) by simp
        have "is_walk d ((q1 @ ys) @ x # y # zs)"
          using pq qd by (simp add: path_from_to_def)
        then have yx: "y \<in> set (dict_get d x)" by (rule is_walk_edge)
        have "\<exists>p'. (y, p') \<in> set queue' \<and> length p' \<le> Suc (length path)"
        proof (cases "x = c")
          case True
          then show ?thesis using pushed[of y] yx f(3) by force
        next
          case False
          then have "x \<in> V" using f(2) by simp
          from bfs_inv_edges[OF inv this yx] f(3)
          obtain p' where p': "(y, p') \<in> set queue" by auto
          then have "length p' \<le> Suc (length path)" using oldhi[of "(y, p')"] by simp
          then show ?thesis using p' unfolding q' by auto
        qed
        then obtain p' where p': "(y, p') \<in> set queue'"
          "length p' \<le> Suc (length path)" by blast
        have "length p' \<le> Suc (length (q1 @ ys @ [x]))" using p'(2) lp by simp
        then show ?thesis using qd f(3) p'(1) by blast
      qed
    qed
  qed
qed

lemma path_from_to_same_neighbors:
  assumes "\<And>x. dict_get d' x = dict_get d x"
  shows "path_from_to d' s t p = path_from_to d s t p"
  by (simp add: path_from_to_def is_walk_same_neighbors[OF assms])

lemma bfs_inv_same_neighbors:
  assumes "\<And>x. dict_get d' x = dict_get d x"
  shows "bfs_inv d' s t Q V = bfs_inv d s t Q V"
  by (simp add: bfs_inv_def entry_ok_same_neighbors[OF assms]
      path_from_to_same_neighbors[OF assms] assms)

lemma find_path_bfs_loop_shortest:
  "bfs_inv d s t queue V \<Longrightarrow>
     (case fst (find_path_bfs_loop d t queue V) of
        Some p \<Rightarrow> \<forall>q. path_from_to d s t q \<longrightarrow> length p \<le> length q
      | None \<Rightarrow> \<forall>q. \<not> path_from_to d s t q)"
proof (induction d t queue V rule: find_path_bfs_loop.induct)
  case (1 d target visited)
  then show ?case using bfs_inv_empty by simp
next
  case (2 d target current path queue visited)
  note inv = 2(3)
  obtain d' where k: "dict_getitem d current = (dict_get d current, d')"
    using getitem_get by (metis surj_pair)
  have same: "\<And>x. dict_get d' x = dict_get d x"
    using getitem_get_after[OF k] .
  show ?case
  proof (cases "current \<in> visited")
    case True
    then show ?thesis using 2(1)[OF True bfs_inv_skip[OF inv True]] by simp
  next
    case False
    show ?thesis
    proof (cases "scan_neighbors target (insert current visited) path (dict_get d current) queue")
      case (Inl found)
      have "found = path @ [target]" using scan_neighbors_Inl[OF Inl] by simp
      then have "\<forall>q. path_from_to d s target q \<longrightarrow> length found \<le> length q"
        using bfs_inv_found[OF inv] by simp
      then show ?thesis using False k Inl by simp
    next
      case (Inr queue')
      have "bfs_inv d s target queue' (insert current visited)"
        using bfs_inv_push[OF inv False Inr] .
      then have "bfs_inv d' s target queue' (insert current visited)"
        by (simp add: bfs_inv_same_neighbors[OF same])
      from 2(2)[OF False k[symmetric] Inr this]
      show ?thesis using False k Inr
        by (simp add: path_from_to_same_neighbors[OF same] split: option.splits)
    qed
  qed
qed

lemma find_path_bfs_cases:
  assumes "dict_contains (adjacency_list g) s" and "dict_contains (adjacency_list g) t"
  shows "case fst (find_path_bfs g s t) of
           Some p \<Rightarrow> \<forall>q. path_from_to (adjacency_list g) s t q \<longrightarrow> length p \<le> length q
         | None \<Rightarrow> \<forall>q. \<not> path_from_to (adjacency_list g) s t q"
proof (cases "s = t")
  case True
  have "Suc 0 \<le> length q" if "path_from_to (adjacency_list g) t t q" for q
    using that by (cases q) (auto simp: path_from_to_def)
  then show ?thesis using assms True by (simp add: find_path_bfs_def)
next
  case False
  have "fst (find_path_bfs g s t)
          = fst (find_path_bfs_loop (adjacency_list g) t [(s, [s])] {})"
    using assms False by (simp add: find_path_bfs_def split: prod.splits)
  then show ?thesis
    using find_path_bfs_loop_shortest[OF bfs_inv_start[OF False], of "adjacency_list g"]
    by simp
qed

text \<open>
  C1. For start and target vertices that are keys of the mapping: a path returned by
  \<^verbatim>\<open>find_path_bfs\<close> leads from start to target along recorded edges and has no more edges
  than any other such path, and None is returned exactly when there is no path from start
  to target. The number of edges of a path is its length minus one.
\<close>

theorem find_path_bfs_shortest:
  "dict_contains (adjacency_list g) s \<Longrightarrow> dict_contains (adjacency_list g) t \<Longrightarrow>
     (\<forall>p. fst (find_path_bfs g s t) = Some p \<longrightarrow>
        path_from_to (adjacency_list g) s t p \<and>
        (\<forall>q. path_from_to (adjacency_list g) s t q \<longrightarrow> length p - 1 \<le> length q - 1)) \<and>
     (fst (find_path_bfs g s t) = None \<longleftrightarrow> (\<forall>q. \<not> path_from_to (adjacency_list g) s t q))"
proof -
  assume s: "dict_contains (adjacency_list g) s" and t: "dict_contains (adjacency_list g) t"
  note c = find_path_bfs_cases[OF s t]
  show ?thesis
  proof (cases "fst (find_path_bfs g s t)")
    case None
    then show ?thesis using c by simp
  next
    case (Some p)
    have p: "path_from_to (adjacency_list g) s t p" using find_path_bfs_path[OF Some] by simp
    have "\<forall>q. path_from_to (adjacency_list g) s t q \<longrightarrow> length p \<le> length q"
      using c Some by simp
    then have "\<forall>q. path_from_to (adjacency_list g) s t q \<longrightarrow> length p - 1 \<le> length q - 1"
      using diff_le_mono by blast
    then show ?thesis using Some p by auto
  qed
qed

theorem find_path_bfs_shortest_witness:
  "dict_contains
     (adjacency_list (add_edge (add_edge (add_edge (Graph True) ''A'' ''B'') ''B'' ''C'')
        ''A'' ''C'')) ''A'' \<and>
   dict_contains
     (adjacency_list (add_edge (add_edge (add_edge (Graph True) ''A'' ''B'') ''B'' ''C'')
        ''A'' ''C'')) ''C'' \<and>
   fst (find_path_bfs (add_edge (add_edge (add_edge (Graph True) ''A'' ''B'') ''B'' ''C'')
          ''A'' ''C'') ''A'' ''C'') = Some [''A'', ''C''] \<and>
   path_from_to
     (adjacency_list (add_edge (add_edge (add_edge (Graph True) ''A'' ''B'') ''B'' ''C'')
        ''A'' ''C'')) ''A'' ''C'' [''A'', ''B'', ''C''] \<and>
   length [''A'', ''C''] - 1 \<le> length [''A'', ''B'', ''C''] - 1"
proof -
  let ?g = "add_edge (add_edge (add_edge (Graph True) ''A'' ''B'') ''B'' ''C'') ''A'' ''C''"
  have a: "dict_contains (adjacency_list ?g) ''A''"
    by (simp add: add_edge_def Graph_def Let_def dict_defs)
  have c: "dict_contains (adjacency_list ?g) ''C''"
    by (simp add: add_edge_def Graph_def Let_def dict_defs)
  have r: "fst (find_path_bfs ?g ''A'' ''C'') = Some [''A'', ''C'']"
    by (simp add: find_path_bfs_def add_edge_def Graph_def Let_def dict_defs)
  have q: "path_from_to (adjacency_list ?g) ''A'' ''C'' [''A'', ''B'', ''C'']"
    by (simp add: path_from_to_def add_edge_def Graph_def Let_def dict_defs)
  show ?thesis using find_path_bfs_shortest[OF a c] a c r q by blast
qed

section \<open>The traversals visit the reachable vertices\<close>

lemma edges_same_neighbors:
  assumes "\<And>x. dict_get d' x = dict_get d x"
  shows "edges d' = edges d"
  by (simp add: edges_def assms)

lemma edges_step: "y \<in> set (dict_get d x) \<Longrightarrow> (x, y) \<in> edges d"
  by (simp add: edges_def)

lemma reach_from_neighbors:
  "(edges d)\<^sup>* `` (set W \<union> set (dict_get d c)) \<subseteq> (edges d)\<^sup>* `` set (c # W)"
proof
  fix u
  assume "u \<in> (edges d)\<^sup>* `` (set W \<union> set (dict_get d c))"
  then obtain w where w: "w \<in> set W \<union> set (dict_get d c)" "(w, u) \<in> (edges d)\<^sup>*" by blast
  show "u \<in> (edges d)\<^sup>* `` set (c # W)"
  proof (cases "w \<in> set W")
    case True
    then show ?thesis using w(2) by auto
  next
    case False
    then have "(c, w) \<in> edges d" using w(1) by (simp add: edges_step)
    then have "(c, u) \<in> (edges d)\<^sup>*" using w(2) by (rule converse_rtrancl_into_rtrancl)
    then show ?thesis by auto
  qed
qed

text \<open>
  What a run of the loop adds: the new vertices are appended to the result without
  repetition, none was visited before, the work list ends up visited, each new vertex is
  reachable from the work list, and if every neighbour of a visited vertex was visited or
  waiting, then afterwards every neighbour of a visited vertex is visited.
\<close>

lemma bfs_loop_result:
  "\<exists>new. fst (bfs_loop d W V res) = res @ new \<and> distinct new \<and> set new \<inter> V = {} \<and>
     fst (snd (bfs_loop d W V res)) = V \<union> set new \<and> set W \<subseteq> V \<union> set new \<and>
     set new \<subseteq> (edges d)\<^sup>* `` set W \<and>
     ((\<forall>x \<in> V. \<forall>y \<in> set (dict_get d x). y \<in> V \<or> y \<in> set W) \<longrightarrow>
      (\<forall>x \<in> V \<union> set new. \<forall>y \<in> set (dict_get d x). y \<in> V \<union> set new))"
proof (induction d W V res rule: bfs_loop.induct)
  case (1 d visited result)
  show ?case by (rule exI[of _ "[]"]) auto
next
  case (2 d c W V res)
  show ?case
  proof (cases "c \<in> V")
    case True
    from 2(2) True obtain new where n: "fst (bfs_loop d W V res) = res @ new" "distinct new"
      "set new \<inter> V = {}" "fst (snd (bfs_loop d W V res)) = V \<union> set new"
      "set W \<subseteq> V \<union> set new" "set new \<subseteq> (edges d)\<^sup>* `` set W"
      "(\<forall>x \<in> V. \<forall>y \<in> set (dict_get d x). y \<in> V \<or> y \<in> set W) \<longrightarrow>
         (\<forall>x \<in> V \<union> set new. \<forall>y \<in> set (dict_get d x). y \<in> V \<union> set new)"
      by auto
    have r: "set new \<subseteq> (edges d)\<^sup>* `` set (c # W)" using n(6) by auto
    have cl: "(\<forall>x \<in> V. \<forall>y \<in> set (dict_get d x). y \<in> V \<or> y \<in> set (c # W)) \<longrightarrow>
         (\<forall>x \<in> V \<union> set new. \<forall>y \<in> set (dict_get d x). y \<in> V \<union> set new)"
      using n(7) True by auto
    show ?thesis
      using True n(1-5) r cl by (intro exI[of _ new]) auto
  next
    case False
    obtain d' where k: "dict_getitem d c = (dict_get d c, d')"
      using getitem_get by (metis surj_pair)
    have same: "\<And>x. dict_get d' x = dict_get d x"
      using getitem_get_after[OF k] .
    let ?W = "W @ filter (\<lambda>n. n \<notin> insert c V) (dict_get d c)"
    let ?V = "insert c V"
    let ?r = "bfs_loop d' ?W ?V (res @ [c])"
    from 2(1)[OF False k[symmetric]]
    obtain new where n: "fst ?r = (res @ [c]) @ new" "distinct new"
      "set new \<inter> ?V = {}" "fst (snd ?r) = ?V \<union> set new"
      "set ?W \<subseteq> ?V \<union> set new" "set new \<subseteq> (edges d)\<^sup>* `` set ?W"
      "(\<forall>x \<in> ?V. \<forall>y \<in> set (dict_get d x). y \<in> ?V \<or> y \<in> set ?W) \<longrightarrow>
         (\<forall>x \<in> ?V \<union> set new. \<forall>y \<in> set (dict_get d x). y \<in> ?V \<union> set new)"
      unfolding same edges_same_neighbors[OF same] by blast
    have e: "bfs_loop d (c # W) V res = ?r" using False k by simp
    have r: "set (c # new) \<subseteq> (edges d)\<^sup>* `` set (c # W)"
    proof -
      have "set ?W \<subseteq> set W \<union> set (dict_get d c)" by auto
      then have "(edges d)\<^sup>* `` set ?W \<subseteq> (edges d)\<^sup>* `` (set W \<union> set (dict_get d c))"
        by (rule Image_mono[OF subset_refl])
      then have "set new \<subseteq> (edges d)\<^sup>* `` set (c # W)"
        using n(6) reach_from_neighbors[of d W c] by blast
      then show ?thesis by auto
    qed
    have cl: "(\<forall>x \<in> V. \<forall>y \<in> set (dict_get d x). y \<in> V \<or> y \<in> set (c # W)) \<longrightarrow>
         (\<forall>x \<in> V \<union> set (c # new). \<forall>y \<in> set (dict_get d x). y \<in> V \<union> set (c # new))"
    proof
      assume a: "\<forall>x \<in> V. \<forall>y \<in> set (dict_get d x). y \<in> V \<or> y \<in> set (c # W)"
      have "\<forall>x \<in> ?V. \<forall>y \<in> set (dict_get d x). y \<in> ?V \<or> y \<in> set ?W"
        using a by auto
      then have "\<forall>x \<in> ?V \<union> set new. \<forall>y \<in> set (dict_get d x). y \<in> ?V \<union> set new"
        using n(7) by blast
      then show "\<forall>x \<in> V \<union> set (c # new). \<forall>y \<in> set (dict_get d x). y \<in> V \<union> set (c # new)"
        by simp
    qed
    show ?thesis
      unfolding e
      using n(1-5) False r cl by (intro exI[of _ "c # new"]) auto
  qed
qed





section \<open>The iterative and the recursive depth-first search agree\<close>






section \<open>The components partition the vertices\<close>

lemma components_loop_result:
  "closed d \<Longrightarrow> \<forall>k \<in> set ks. dict_contains d k \<Longrightarrow> \<forall>v \<in> V. dict_contains d v \<Longrightarrow>
     \<exists>newc. fst (components_loop d (length d) ks V comps) = Inr (comps @ newc) \<and>
       distinct (concat newc) \<and> set (concat newc) \<inter> V = {} \<and>
       set ks \<subseteq> V \<union> set (concat newc) \<and>
       (\<forall>v \<in> set (concat newc). dict_contains d v) \<and> [] \<notin> set newc"
proof (induction ks arbitrary: V comps)
  case Nil
  show ?case by (rule exI[of _ "[]"]) simp
next
  case (Cons k ks)
  have ks: "\<forall>k \<in> set ks. dict_contains d k" using Cons.prems(2) by simp
  show ?case
  proof (cases "k \<in> V")
    case True
    from Cons.IH[OF Cons.prems(1) ks Cons.prems(3), of comps]
    obtain newc where "fst (components_loop d (length d) ks V comps) = Inr (comps @ newc)"
      "distinct (concat newc)" "set (concat newc) \<inter> V = {}"
      "set ks \<subseteq> V \<union> set (concat newc)"
      "\<forall>v \<in> set (concat newc). dict_contains d v" "[] \<notin> set newc"
      by blast
    then show ?thesis using True by (intro exI[of _ newc]) auto
  next
    case False
    let ?r = "bfs_loop d [k] V []"
    have kk: "\<forall>v \<in> set [k]. dict_contains d v" using Cons.prems(2) by simp
    from bfs_loop_result[of d "[k]" V "[]"]
    obtain new where n: "fst ?r = new" "distinct new" "set new \<inter> V = {}"
      "fst (snd ?r) = V \<union> set new" "k \<in> V \<union> set new"
      by auto
    have u: "snd (snd ?r) = d" using bfs_loop_unchanged[OF Cons.prems(1) kk] .
    have vk: "\<forall>v \<in> V \<union> set new. dict_contains d v"
      using bfs_loop_visited_keys[OF Cons.prems(1) kk Cons.prems(3), of "[]"] n(4) by simp
    have ne: "new \<noteq> []" using n(5) False by auto
    have r: "?r = (new, V \<union> set new, d)" using n(1) n(4) u by (metis prod.collapse)
    have e: "components_loop d (length d) (k # ks) V comps
               = components_loop d (length d) ks (V \<union> set new) (comps @ [new])"
      using False r ne by (simp del: bfs_loop.simps)
    from Cons.IH[OF Cons.prems(1) ks vk, of "comps @ [new]"]
    obtain newc where c:
      "fst (components_loop d (length d) ks (V \<union> set new) (comps @ [new]))
         = Inr ((comps @ [new]) @ newc)"
      "distinct (concat newc)" "set (concat newc) \<inter> (V \<union> set new) = {}"
      "set ks \<subseteq> (V \<union> set new) \<union> set (concat newc)"
      "\<forall>v \<in> set (concat newc). dict_contains d v" "[] \<notin> set newc"
      by blast
    have d1: "distinct (concat (new # newc))" using n(2) c(2) c(3) by auto
    have d2: "set (concat (new # newc)) \<inter> V = {}" using n(3) c(3) by auto
    have d3: "set (k # ks) \<subseteq> V \<union> set (concat (new # newc))" using n(5) c(4) by auto
    have d4: "\<forall>v \<in> set (concat (new # newc)). dict_contains d v" using vk c(5) by auto
    have d5: "[] \<notin> set (new # newc)" using ne c(6) by auto
    show ?thesis
      unfolding e using c(1) d1 d2 d3 d4 d5 by (intro exI[of _ "new # newc"]) simp
  qed
qed

lemma distinct_concat_index:
  "distinct (concat xs) \<Longrightarrow> i < length xs \<Longrightarrow> j < length xs \<Longrightarrow>
     v \<in> set (xs ! i) \<Longrightarrow> v \<in> set (xs ! j) \<Longrightarrow> i = j"
proof (induction xs arbitrary: i j)
  case Nil
  then show ?case by simp
next
  case (Cons x xs)
  show ?case
  proof (cases i)
    case 0
    show ?thesis
    proof (cases j)
      case 0
      then show ?thesis using \<open>i = 0\<close> by simp
    next
      case (Suc j')
      then have "v \<in> set (concat xs)" using Cons.prems(3,5) by auto
      then show ?thesis using Cons.prems(1,4) \<open>i = 0\<close> by auto
    qed
  next
    case (Suc i')
    show ?thesis
    proof (cases j)
      case 0
      have "v \<in> set (concat xs)" using Cons.prems(2,4) Suc by auto
      then show ?thesis using Cons.prems(1,5) 0 by auto
    next
      case (Suc j')
      then show ?thesis using Cons.IH[of i' j'] Cons.prems \<open>i = Suc i'\<close> by simp
    qed
  qed
qed

lemma concat_unique_component:
  assumes "distinct (concat xs)" and "v \<in> set (concat xs)"
  shows "\<exists>!i. i < length xs \<and> v \<in> set (xs ! i)"
proof -
  from assms(2) obtain ys where "ys \<in> set xs" "v \<in> set ys" by auto
  then obtain i where "i < length xs" "v \<in> set (xs ! i)" by (metis in_set_conv_nth)
  then show ?thesis using distinct_concat_index[OF assms(1)] by blast
qed

text \<open>
  C4. On a graph whose mapping is closed (the invariant of the data model),
  \<^verbatim>\<open>connected_components_bfs\<close> returns a list of components, raising nothing, in which
  no vertex occurs twice, within a component or across components; the vertices in the
  components are exactly the keys of the mapping, so every vertex lies in exactly one
  component, and no component is empty. On the empty graph the list is empty.
\<close>

theorem components_partition_vertices:
  "closed (adjacency_list g) \<Longrightarrow>
     (\<exists>comps. fst (connected_components_bfs g) = Inr comps \<and>
        set (concat comps) = set (fst (get_vertices g)) \<and>
        distinct (concat comps) \<and>
        (\<forall>v \<in> set (fst (get_vertices g)). \<exists>!i. i < length comps \<and> v \<in> set (comps ! i)) \<and>
        [] \<notin> set comps) \<and>
     (adjacency_list g = [] \<longrightarrow> fst (connected_components_bfs g) = Inr [])"
proof
  assume c: "closed (adjacency_list g)"
  let ?d = "adjacency_list g"
  have ks: "\<forall>k \<in> set (dict_keys ?d). dict_contains ?d k" by (simp add: dict_contains_def)
  from components_loop_result[OF c ks, of "{}" "[]"]
  obtain comps where r:
    "fst (components_loop ?d (length ?d) (dict_keys ?d) {} []) = Inr comps"
    "distinct (concat comps)" "set (dict_keys ?d) \<subseteq> set (concat comps)"
    "\<forall>v \<in> set (concat comps). dict_contains ?d v" "[] \<notin> set comps"
    by auto
  have f: "fst (connected_components_bfs g) = Inr comps"
    using r(1) by (simp add: connected_components_bfs_def case_prod_unfold)
  have s: "set (concat comps) = set (fst (get_vertices g))"
    using r(3) r(4) by (auto simp: get_vertices_def dict_contains_def)
  have u: "\<forall>v \<in> set (fst (get_vertices g)). \<exists>!i. i < length comps \<and> v \<in> set (comps ! i)"
    using concat_unique_component[OF r(2)] s by blast
  show "\<exists>comps. fst (connected_components_bfs g) = Inr comps \<and>
        set (concat comps) = set (fst (get_vertices g)) \<and>
        distinct (concat comps) \<and>
        (\<forall>v \<in> set (fst (get_vertices g)). \<exists>!i. i < length comps \<and> v \<in> set (comps ! i)) \<and>
        [] \<notin> set comps"
    using f s r(2) u r(5) by blast
next
  show "adjacency_list g = [] \<longrightarrow> fst (connected_components_bfs g) = Inr []"
    by (simp add: connected_components_bfs_def dict_keys_def)
qed

theorem components_partition_vertices_witness:
  "closed (adjacency_list (add_vertex (add_edge (Graph False) ''A'' ''B'') ''C'')) \<and>
   fst (connected_components_bfs (add_vertex (add_edge (Graph False) ''A'' ''B'') ''C''))
     = Inr [[''A'', ''B''], [''C'']] \<and>
   (\<exists>comps. fst (connected_components_bfs (add_vertex (add_edge (Graph False) ''A'' ''B'') ''C''))
        = Inr comps \<and>
      set (concat comps)
        = set (fst (get_vertices (add_vertex (add_edge (Graph False) ''A'' ''B'') ''C''))) \<and>
      distinct (concat comps)) \<and>
   adjacency_list (Graph False) = [] \<and>
   fst (connected_components_bfs (Graph False)) = Inr []"
proof -
  let ?g = "add_vertex (add_edge (Graph False) ''A'' ''B'') ''C''"
  have h: "closed (adjacency_list ?g)"
    by (simp add: add_vertex_def add_edge_def Graph_def Let_def closed_def dict_defs)
  have v: "fst (connected_components_bfs ?g) = Inr [[''A'', ''B''], [''C'']]"
    by (simp add: connected_components_bfs_def add_vertex_def add_edge_def Graph_def Let_def
        dict_defs)
  have e: "adjacency_list (Graph False) = []" by (simp add: Graph_def)
  have ec: "closed (adjacency_list (Graph False))" by (simp add: Graph_def closed_def)
  have 1: "\<exists>comps. fst (connected_components_bfs ?g) = Inr comps \<and>
      set (concat comps) = set (fst (get_vertices ?g)) \<and> distinct (concat comps)"
    using components_partition_vertices[OF h] by blast
  have 2: "fst (connected_components_bfs (Graph False)) = Inr []"
    using components_partition_vertices[OF ec] e by blast
  show ?thesis using h v e 1 2 by blast
qed

text \<open>
  Without the invariant the search inserts the missing key while the mapping is being
  iterated over, and Python raises RuntimeError. Such a mapping cannot be built with
  \<^verbatim>\<open>add_vertex\<close> and \<^verbatim>\<open>add_edge\<close>.
\<close>

lemma components_on_dangling_neighbor:
  "connected_components_bfs \<lparr>adjacency_list = [(''A'', [''B''])], directed = True\<rparr>
     = (Inl RuntimeError,
        \<lparr>adjacency_list = [(''A'', [''B'']), (''B'', [])], directed = True\<rparr>)"
  by (simp add: connected_components_bfs_def dict_defs)




section \<open>A chain deeper than the recursion limit\<close>









section \<open>The recursive search against the iterative one\<close>






text \<open>
  Without the invariant the two searches can differ: a neighbour that is not a key is
  visited by the iterative search (indexing the default dictionary creates its entry) and
  skipped by the recursive one. Such a mapping cannot be built with \<^verbatim>\<open>add_vertex\<close> and
  \<^verbatim>\<open>add_edge\<close>.
\<close>

lemma dfs_on_dangling_neighbor:
  "depth_first_search \<lparr>adjacency_list = [(''A'', [''B''])], directed = True\<rparr> ''A''
     = ([''A'', ''B''], \<lparr>adjacency_list = [(''A'', [''B'']), (''B'', [])], directed = True\<rparr>) \<and>
   fst (dfs_recursive \<lparr>adjacency_list = [(''A'', [''B''])], directed = True\<rparr> ''A'' None 5)
     = Inr [''A'']"
  by (simp add: depth_first_search_def dfs_recursive_def dfs_loop.simps dict_defs
      eval_nat_numeral)




end
